theory Spec2Isabelle
  imports Complex_Main "HOL-Library.Sublist"
begin

section \<open>wget-mp.py: the process pool and the file-name helpers\<close>

text \<open>
  The script starts \<^verbatim>\<open>wget\<close> children through \<^verbatim>\<open>subprocess.Popen\<close>, keeps them in
  the list \<^verbatim>\<open>self.proc\<close> of a \<^verbatim>\<open>ProcessPool\<close>, and polls them once a second.
  Everything the pool does to the outside (reading the clock, \<^verbatim>\<open>poll()\<close>, \<^verbatim>\<open>kill()\<close>,
  printing, sleeping, spawning) is an operation on an explicit \<open>world\<close>; the pool object
  itself is a record that every method returns updated.
\<close>

subsection \<open>The world outside the pool\<close>

text \<open>Debug texts of \<^verbatim>\<open>p_dbg\<close> and the lines printed by \<^verbatim>\<open>p_msg\<close>.\<close>

datatype dbg =
    DbgFinalizing
  | DbgKillingTime
  | DbgRunning nat int
  | DbgFinished nat
  | DbgSpawning "string list"
  | DbgNewProcess nat

datatype msg =
    MsgKilledTimeout nat int
  | MsgKilledAll nat
  | MsgWaiting nat int
  | MsgDebug int dbg

text \<open>
  What the pool does to the outside, in the order it happens: a \<^verbatim>\<open>poll()\<close> of a pid with
  its result, a kill signal sent to a pid, a line on standard output, a child started.
\<close>

datatype event =
    Poll nat "int option"
  | Kill nat
  | Stdout msg
  | Spawn nat "string list"

datatype error = OSError

text \<open>
  A \<^verbatim>\<open>Popen\<close> object as the script uses it: the pid and the attribute \<^verbatim>\<open>start_time\<close>
  that \<^verbatim>\<open>start_timer\<close> adds.
\<close>

record popen =
  pid :: nat
  start_time :: int

text \<open>
  The world: the clock that \<^verbatim>\<open>time.mktime(time.gmtime())\<close> reads (whole seconds), the
  moment each child exits by itself (\<open>None\<close>: it never does) and its exit status, which
  commands can be started, the next free pid, the events so far, and the children
  that a kill signal has ended. \<^verbatim>\<open>kill()\<close> only sends the signal; it takes effect
  while the program sleeps, so a \<^verbatim>\<open>poll()\<close> in the same round still finds the child
  running. A child is alive until its own exit time is reached or a signal has ended it.
\<close>

record world =
  clock :: int
  exit_time :: "nat \<Rightarrow> int option"
  exit_code :: "nat \<Rightarrow> int"
  can_spawn :: "string list \<Rightarrow> bool"
  next_pid :: nat
  trace :: "event list"
  killed :: "nat list"

definition emit :: "event \<Rightarrow> world \<Rightarrow> world" where
  "emit e w = w\<lparr>trace := trace w @ [e]\<rparr>"

definition alive :: "world \<Rightarrow> popen \<Rightarrow> bool" where
  "alive w p \<longleftrightarrow>
     pid p \<notin> set (killed w) \<and>
     (case exit_time w (pid p) of None \<Rightarrow> True | Some t \<Rightarrow> clock w < t)"

definition returncode :: "world \<Rightarrow> popen \<Rightarrow> int" where
  "returncode w p = (if pid p \<in> set (killed w) then - 9 else exit_code w (pid p))"

definition poll :: "popen \<Rightarrow> world \<Rightarrow> int option \<times> world" where
  "poll p w =
     (let r = (if alive w p then None else Some (returncode w p))
      in (r, emit (Poll (pid p) r) w))"

definition kill :: "popen \<Rightarrow> world \<Rightarrow> world" where
  "kill p w = emit (Kill (pid p)) w"

text \<open>The pids that the kill signals among some events went to.\<close>

fun kill_targets :: "event list \<Rightarrow> nat list" where
  "kill_targets [] = []"
| "kill_targets (Kill a # es) = a # kill_targets es"
| "kill_targets (e # es) = kill_targets es"

text \<open>The pids that the polls among some events asked about.\<close>

fun poll_targets :: "event list \<Rightarrow> nat list" where
  "poll_targets [] = []"
| "poll_targets (Poll a r # es) = a # poll_targets es"
| "poll_targets (e # es) = poll_targets es"

text \<open>\<^verbatim>\<open>time.sleep(n)\<close>: the clock moves on, and the signals sent so far take effect.\<close>

definition sleep :: "int \<Rightarrow> world \<Rightarrow> world" where
  "sleep n w = w\<lparr>clock := clock w + n, killed := killed w @ kill_targets (trace w)\<rparr>"

text \<open>\<^verbatim>\<open>subprocess.Popen(cmd, stdout=None)\<close>: raises \<^verbatim>\<open>OSError\<close> when the program cannot
  be started; the new object has no \<^verbatim>\<open>start_time\<close> yet (here: 0 until \<open>start_timer\<close>).\<close>

definition Popen :: "string list \<Rightarrow> world \<Rightarrow> error + (popen \<times> world)" where
  "Popen cmd w =
     (if can_spawn w cmd
      then Inr (\<lparr>pid = next_pid w, start_time = 0\<rparr>,
                emit (Spawn (next_pid w) cmd) (w\<lparr>next_pid := Suc (next_pid w)\<rparr>))
      else Inl OSError)"

subsection \<open>Printing\<close>

definition DEBUG :: int where
  "DEBUG = 0"

definition p_dbg :: "dbg \<Rightarrow> int \<Rightarrow> world \<Rightarrow> world" where
  "p_dbg m level w = (if DEBUG \<ge> level then emit (Stdout (MsgDebug level m)) w else w)"

definition p_msg :: "msg \<Rightarrow> world \<Rightarrow> world" where
  "p_msg m w = emit (Stdout m) w"

subsection \<open>The timer added to Popen\<close>

definition start_timer :: "popen \<Rightarrow> world \<Rightarrow> popen" where
  "start_timer p w = p\<lparr>start_time := clock w\<rparr>"

definition get_runtime :: "popen \<Rightarrow> world \<Rightarrow> int" where
  "get_runtime p w = clock w - start_time p"

subsection \<open>ProcessPool\<close>

record ProcessPool =
  proc :: "popen list"
  process_timeout :: int
  max_processes :: int

definition ProcessPool_init :: "int \<Rightarrow> int \<Rightarrow> ProcessPool" where
  "ProcessPool_init process_timeout' max_processes' =
     \<lparr>proc = [], process_timeout = process_timeout', max_processes = max_processes'\<rparr>"

text \<open>The \<^verbatim>\<open>for\<close> loop of \<^verbatim>\<open>__clean\<close>, with \<^verbatim>\<open>newproc\<close> as accumulator.\<close>

fun clean_loop :: "int \<Rightarrow> popen list \<Rightarrow> popen list \<Rightarrow> world \<Rightarrow> popen list \<times> world" where
  "clean_loop T [] newproc w = (newproc, w)"
| "clean_loop T (p # ps) newproc w =
     (case poll p w of (r, w1) \<Rightarrow>
        if r = None then
          if T > 0 \<and> get_runtime p w1 > T
          then clean_loop T ps newproc (kill p (p_msg (MsgKilledTimeout (pid p) T) w1))
          else clean_loop T ps (newproc @ [p])
                 (p_dbg (DbgRunning (pid p) (get_runtime p w1)) 2 w1)
        else clean_loop T ps newproc (p_dbg (DbgFinished (pid p)) 3 w1))"

definition clean :: "ProcessPool \<Rightarrow> world \<Rightarrow> ProcessPool \<times> world" where
  "clean self w =
     (case clean_loop (process_timeout self) (proc self) [] w of
        (newproc, w') \<Rightarrow> (self\<lparr>proc := newproc\<rparr>, w'))"

fun killall_loop :: "popen list \<Rightarrow> world \<Rightarrow> world" where
  "killall_loop [] w = w"
| "killall_loop (p # ps) w =
     (case poll p w of (r, w1) \<Rightarrow>
        if r = None
        then killall_loop ps (kill p (p_msg (MsgKilledAll (pid p)) w1))
        else killall_loop ps w1)"

text \<open>\<^verbatim>\<open>killall\<close> assigns nothing to \<^verbatim>\<open>self\<close>: the pool comes back as it went in.\<close>

definition killall :: "ProcessPool \<Rightarrow> world \<Rightarrow> ProcessPool \<times> world" where
  "killall self w = (self, killall_loop (proc self) (p_dbg DbgKillingTime 1 w))"

text \<open>The body of the waiting loop of \<^verbatim>\<open>run\<close>: one sweep, one second of sleep.\<close>

definition wait_step :: "ProcessPool \<Rightarrow> world \<Rightarrow> ProcessPool \<times> world" where
  "wait_step self w = (case clean self w of (self', w') \<Rightarrow> (self', sleep 1 w'))"

text \<open>The waiting loop may go on forever: \<open>None\<close> is the call that never returns.\<close>

partial_function (option) run_wait :: "ProcessPool \<Rightarrow> world \<Rightarrow> (ProcessPool \<times> world) option" where
  "run_wait self w =
     (if int (length (proc self)) \<ge> max_processes self
      then (case wait_step self w of (self', w') \<Rightarrow> run_wait self' w')
      else Some (self, w))"

declare run_wait.simps [code]

text \<open>A call either returns or raises; the pool and the world are what they are either way.\<close>

datatype outcome = Returned ProcessPool world | Raised error ProcessPool world

definition spawn_append :: "string list \<Rightarrow> ProcessPool \<Rightarrow> world \<Rightarrow> outcome" where
  "spawn_append cmd self w =
     (case Popen cmd (p_dbg (DbgSpawning cmd) 2 w) of
        Inl e \<Rightarrow> Raised e self (p_dbg (DbgSpawning cmd) 2 w)
      | Inr (p, w1) \<Rightarrow>
          let p' = start_timer p w1;
              w2 = p_dbg (DbgNewProcess (pid p')) 3 w1
          in Returned (self\<lparr>proc := proc self @ [p']\<rparr>) w2)"

definition run :: "ProcessPool \<Rightarrow> world \<Rightarrow> string list \<Rightarrow> outcome option" where
  "run self w cmd =
     (case run_wait self w of
        None \<Rightarrow> None
      | Some (self1, w1) \<Rightarrow> Some (spawn_append cmd self1 w1))"

text \<open>Calls of \<^verbatim>\<open>run\<close> one after the other, as the loop over the URLs makes them; the
  first exception ends the sequence.\<close>

fun run_seq :: "ProcessPool \<Rightarrow> world \<Rightarrow> string list list \<Rightarrow> outcome option" where
  "run_seq self w [] = Some (Returned self w)"
| "run_seq self w (cmd # cmds) =
     (case run self w cmd of
        None \<Rightarrow> None
      | Some (Raised e self' w') \<Rightarrow> Some (Raised e self' w')
      | Some (Returned self' w') \<Rightarrow> run_seq self' w' cmds)"

text \<open>The body of the \<^verbatim>\<open>while\<close> loop of \<^verbatim>\<open>finalize\<close>, one round: \<^verbatim>\<open>killall\<close> when
  the global timeout is on and reached, the progress line, one sweep, one second of
  sleep. The timeout is any number (the clock reads whole seconds).\<close>

definition finalize_round ::
  "real \<Rightarrow> int \<Rightarrow> int \<Rightarrow> int \<Rightarrow> ProcessPool \<Rightarrow> world \<Rightarrow> ProcessPool \<times> world" where
  "finalize_round timeout verbose stime idx self w =
     (let dtime = clock w - stime
      in case (if timeout > 0 \<and> real_of_int dtime \<ge> timeout then killall self w else (self, w)) of
           (self1, w1) \<Rightarrow>
             (let w2 = (if verbose > 0 \<and> idx mod 10 = 0
                        then p_msg (MsgWaiting (length (proc self1)) dtime) w1 else w1)
              in case clean self1 w2 of
                   (self2, w3) \<Rightarrow> (self2, sleep 1 w3)))"

text \<open>The \<^verbatim>\<open>while\<close> loop of \<^verbatim>\<open>finalize\<close>.\<close>

partial_function (option) finalize_loop ::
  "real \<Rightarrow> int \<Rightarrow> int \<Rightarrow> int \<Rightarrow> ProcessPool \<Rightarrow> world \<Rightarrow> (ProcessPool \<times> world) option" where
  "finalize_loop timeout verbose stime idx self w =
     (if length (proc self) > 0 then
        (case finalize_round timeout verbose stime idx self w of
           (self', w') \<Rightarrow> finalize_loop timeout verbose stime (idx + 1) self' w')
      else Some (self, w))"

declare finalize_loop.simps [code]

definition finalize :: "ProcessPool \<Rightarrow> world \<Rightarrow> real \<Rightarrow> int \<Rightarrow> (ProcessPool \<times> world) option" where
  "finalize self w timeout verbose =
     (let w0 = p_dbg DbgFinalizing 1 w;
          stime = clock w0
      in case clean self w0 of
           (self', w1) \<Rightarrow> finalize_loop timeout verbose stime 0 self' w1)"

subsection \<open>File names from URLs and back\<close>

definition newline :: char where
  "newline = CHR 0x0A"

definition rstrip_slashes :: "string \<Rightarrow> string" where
  "rstrip_slashes s = rev (dropWhile (\<lambda>c. c = CHR ''/'') (rev s))"

text \<open>\<^verbatim>\<open>re.sub("^(https?|ftp|file):/+", "", url)\<close>: a scheme, a colon and every slash that
  follows, at the start of the string only.\<close>

definition sub_scheme :: "string \<Rightarrow> string" where
  "sub_scheme url =
     (case List.find (\<lambda>s. prefix (s @ '':/'') url) [''http'', ''https'', ''ftp'', ''file''] of
        None \<Rightarrow> url
      | Some s \<Rightarrow> dropWhile (\<lambda>c. c = CHR ''/'') (drop (length s + 1) url))"

text \<open>\<^verbatim>\<open>re.sub("/+$", "", target)\<close>: the slashes at the end; \<^verbatim>\<open>$\<close> also matches just before
  a newline that ends the string.\<close>

definition sub_trailing_slashes :: "string \<Rightarrow> string" where
  "sub_trailing_slashes t =
     (if t \<noteq> [] \<and> last t = newline
      then rstrip_slashes (butlast t) @ [newline]
      else rstrip_slashes t)"

definition replace_char :: "char \<Rightarrow> char \<Rightarrow> string \<Rightarrow> string" where
  "replace_char a b s = map (\<lambda>c. if c = a then b else c) s"

definition url2filename :: "string \<Rightarrow> string" where
  "url2filename url =
     (let target = sub_scheme url;
          target = sub_trailing_slashes target;
          target = replace_char (CHR ''/'') (CHR ''+'') target;
          target = replace_char (CHR '' '') (CHR ''_'') target
      in target)"

text \<open>\<^verbatim>\<open>re.sub(".*/", "", filename)\<close>: \<^verbatim>\<open>.\<close> does not match a newline, so on every line
  the characters up to its last slash go.\<close>

fun sub_path :: "string \<Rightarrow> string" where
  "sub_path [] = []"
| "sub_path (c # cs) =
     (if c \<noteq> newline \<and> CHR ''/'' \<in> set (takeWhile (\<lambda>d. d \<noteq> newline) (c # cs))
      then sub_path cs
      else c # sub_path cs)"

definition guessUrlFromFilename :: "string \<Rightarrow> string" where
  "guessUrlFromFilename filename =
     (let target = sub_path filename;
          target = ''http://'' @ target;
          target = replace_char (CHR ''+'') (CHR ''/'') target
      in target)"

subsection \<open>Events appended to the world\<close>

text \<open>The world with further events at the end of its trace.\<close>

definition ext :: "world \<Rightarrow> event list \<Rightarrow> world" where
  "ext w es = w\<lparr>trace := trace w @ es\<rparr>"

text \<open>Every kill signal in a run of events comes right after the poll that found the
  process running and the line that announces the kill.\<close>

definition kills_announced :: "(nat \<Rightarrow> msg) \<Rightarrow> event list \<Rightarrow> bool" where
  "kills_announced f es \<longleftrightarrow>
     (\<forall>pre a post. es = pre @ Kill a # post \<longrightarrow>
        (\<exists>pre'. pre = pre' @ [Poll a None, Stdout (f a)]))"

subsection \<open>Concrete pools and worlds\<close>

text \<open>Two children started at second 100 that never exit by themselves, seen at
  second 105.\<close>

definition child1 :: popen where
  "child1 = \<lparr>pid = 1, start_time = 100\<rparr>"

definition child2 :: popen where
  "child2 = \<lparr>pid = 2, start_time = 100\<rparr>"

definition never_exits :: "nat \<Rightarrow> int option" where
  "never_exits a = None"

definition exit_code0 :: "nat \<Rightarrow> int" where
  "exit_code0 a = 0"

definition any_command :: "string list \<Rightarrow> bool" where
  "any_command cmd = True"

definition no_command :: "string list \<Rightarrow> bool" where
  "no_command cmd = False"

definition world105 :: world where
  "world105 = \<lparr>clock = 105, exit_time = never_exits, exit_code = exit_code0,
                can_spawn = any_command, next_pid = 3, trace = [], killed = []\<rparr>"

definition pool2 :: "int \<Rightarrow> int \<Rightarrow> ProcessPool" where
  "pool2 T K = \<lparr>proc = [child2], process_timeout = T, max_processes = K\<rparr>"

definition pool12 :: "int \<Rightarrow> int \<Rightarrow> ProcessPool" where
  "pool12 T K = \<lparr>proc = [child1, child2], process_timeout = T, max_processes = K\<rparr>"


subsection \<open>Properties of event lists and of states\<close>

text \<open>What a sweep may append: kill signals only as announced timeouts, none at all
  when the timeout is off, and no line of \<^verbatim>\<open>killall\<close>.\<close>

definition sweep_events :: "int \<Rightarrow> event list \<Rightarrow> bool" where
  "sweep_events T es \<longleftrightarrow>
     kills_announced (\<lambda>a. MsgKilledTimeout a T) es \<and>
     (\<forall>a. Stdout (MsgKilledAll a) \<notin> set es) \<and>
     (T \<le> 0 \<longrightarrow> (\<forall>a. Kill a \<notin> set es))"

text \<open>The states the pool passes through while \<^verbatim>\<open>run\<close> is called again and again:
  a round of the waiting loop while the list is full, a new child when it is not.\<close>

inductive_set pool_states :: "ProcessPool \<times> world \<Rightarrow> (ProcessPool \<times> world) set"
  for start :: "ProcessPool \<times> world" where
  initial: "start \<in> pool_states start"
| sweep: "(self, w) \<in> pool_states start \<Longrightarrow> max_processes self \<le> int (length (proc self)) \<Longrightarrow>
     wait_step self w \<in> pool_states start"
| admit: "(self, w) \<in> pool_states start \<Longrightarrow> \<not> max_processes self \<le> int (length (proc self)) \<Longrightarrow>
     spawn_append cmd self w = Returned self' w' \<Longrightarrow> (self', w') \<in> pool_states start"

text \<open>The states \<^verbatim>\<open>finalize\<close> passes through, each with the round counter
  \<^verbatim>\<open>idx\<close>: the state after the first sweep, and from a state whose list is not empty
  the state after one more round. Whether the loop ever ends plays no part.\<close>

inductive_set drain_states ::
  "real \<Rightarrow> int \<Rightarrow> int \<Rightarrow> int \<times> ProcessPool \<times> world \<Rightarrow> (int \<times> ProcessPool \<times> world) set"
  for timeout :: real and verbose :: int and stime :: int
    and start :: "int \<times> ProcessPool \<times> world" where
  first: "start \<in> drain_states timeout verbose stime start"
| round: "(idx, self, w) \<in> drain_states timeout verbose stime start \<Longrightarrow>
     length (proc self) > 0 \<Longrightarrow>
     finalize_round timeout verbose stime idx self w = (self', w') \<Longrightarrow>
     (idx + 1, self', w') \<in> drain_states timeout verbose stime start"

definition finalize_states ::
  "ProcessPool \<Rightarrow> world \<Rightarrow> real \<Rightarrow> int \<Rightarrow> (int \<times> ProcessPool \<times> world) set" where
  "finalize_states self w timeout verbose =
     drain_states timeout verbose (clock (p_dbg DbgFinalizing 1 w))
       (0, clean self (p_dbg DbgFinalizing 1 w))"

text \<open>The URLs of the round trip: what follows \<^verbatim>\<open>http://\<close>.\<close>

fun no_consecutive_slashes :: "string \<Rightarrow> bool" where
  "no_consecutive_slashes (a # b # cs) =
     (\<not> (a = CHR ''/'' \<and> b = CHR ''/'') \<and> no_consecutive_slashes (b # cs))"
| "no_consecutive_slashes cs = True"

definition plain_remainder :: "string \<Rightarrow> bool" where
  "plain_remainder r \<longleftrightarrow>
     r \<noteq> [] \<and> CHR ''+'' \<notin> set r \<and> CHR ''_'' \<notin> set r \<and> CHR '' '' \<notin> set r \<and>
     no_consecutive_slashes r \<and> last r \<noteq> CHR ''/''"

text \<open>A world in which the second child exits at second 103, and one in which no
  program can be started.\<close>

definition exits_103 :: "nat \<Rightarrow> int option" where
  "exits_103 a = (if a = 2 then Some 103 else None)"

definition world100 :: world where
  "world100 = \<lparr>clock = 100, exit_time = exits_103, exit_code = exit_code0,
                can_spawn = any_command, next_pid = 1, trace = [], killed = []\<rparr>"

definition world_no_wget :: world where
  "world_no_wget = \<lparr>clock = 100, exit_time = never_exits, exit_code = exit_code0,
                can_spawn = no_command, next_pid = 1, trace = [], killed = []\<rparr>"


section \<open>Basic facts about the world\<close>

lemma ext_fields [simp]:
  "clock (ext w es) = clock w"
  "exit_time (ext w es) = exit_time w"
  "exit_code (ext w es) = exit_code w"
  "can_spawn (ext w es) = can_spawn w"
  "next_pid (ext w es) = next_pid w"
  "trace (ext w es) = trace w @ es"
  "killed (ext w es) = killed w"
  by (simp_all add: ext_def)

lemma ext_Nil [simp]: "ext w [] = w"
  by (simp add: ext_def)

lemma ext_ext [simp]: "ext (ext w es) es' = ext w (es @ es')"
  by (simp add: ext_def)

lemma emit_ext: "emit e w = ext w [e]"
  by (simp add: emit_def ext_def)

lemma p_dbg_silent [simp]: "0 < level \<Longrightarrow> p_dbg m level w = w"
  by (simp add: p_dbg_def DEBUG_def)

lemma p_msg_ext: "p_msg m w = ext w [Stdout m]"
  by (simp add: p_msg_def emit_ext)

text \<open>Events alone end no child.\<close>

lemma alive_ext [simp]: "alive (ext w es) p \<longleftrightarrow> alive w p"
  by (auto simp: alive_def split: option.splits)

lemma ext_same:
  assumes "ext w es = ext w es'"
  shows "es = es'"
proof -
  from assms have "trace (ext w es) = trace (ext w es')" by simp
  then show ?thesis by simp
qed

lemma returncode_ext [simp]: "returncode (ext w es) p = returncode w p"
  by (simp add: returncode_def)

lemma set_kill_targets: "a \<in> set (kill_targets es) \<longleftrightarrow> Kill a \<in> set es"
  by (induction es rule: kill_targets.induct) auto

lemma get_runtime_ext [simp]: "get_runtime p (ext w es) = get_runtime p w"
  by (simp add: get_runtime_def)

lemma sleep_fields [simp]:
  "clock (sleep n w) = clock w + n"
  "exit_time (sleep n w) = exit_time w"
  "can_spawn (sleep n w) = can_spawn w"
  "next_pid (sleep n w) = next_pid w"
  "trace (sleep n w) = trace w"
  "killed (sleep n w) = killed w @ kill_targets (trace w)"
  by (simp_all add: sleep_def)

text \<open>Sleeping revives no child, and ends every child that was sent a signal.\<close>

lemma alive_sleep: "0 \<le> n \<Longrightarrow> alive (sleep n w) p \<Longrightarrow> alive w p"
  by (auto simp: alive_def split: option.splits)

lemma signalled_sleep: "Kill (pid p) \<in> set (trace w) \<Longrightarrow> \<not> alive (sleep n w) p"
  by (simp add: alive_def set_kill_targets)

lemma clean_loop_Cons:
  "clean_loop T (p # ps) acc w =
     (if alive w p then
        if T > 0 \<and> get_runtime p w > T
        then clean_loop T ps acc
               (ext w [Poll (pid p) None, Stdout (MsgKilledTimeout (pid p) T), Kill (pid p)])
        else clean_loop T ps (acc @ [p]) (ext w [Poll (pid p) None])
      else clean_loop T ps acc (ext w [Poll (pid p) (Some (returncode w p))]))"
  by (simp add: poll_def kill_def p_msg_def Let_def emit_ext)

lemma killall_loop_Cons:
  "killall_loop (p # ps) w =
     (if alive w p
      then killall_loop ps (ext w [Poll (pid p) None, Stdout (MsgKilledAll (pid p)), Kill (pid p)])
      else killall_loop ps (ext w [Poll (pid p) (Some (returncode w p))]))"
  by (simp add: poll_def kill_def p_msg_def Let_def emit_ext)

declare clean_loop.simps(2) [simp del]
declare killall_loop.simps(2) [simp del]

lemma kills_announced_Nil [simp]: "kills_announced f []"
  by (simp add: kills_announced_def)

lemma kills_announced_no_kill:
  "\<forall>a. Kill a \<notin> set es \<Longrightarrow> kills_announced f es"
  by (auto simp: kills_announced_def)

lemma kills_announced_block [simp]:
  "kills_announced f [Poll a None, Stdout (f a), Kill a]"
  by (auto simp: kills_announced_def Cons_eq_append_conv)

lemma kills_announced_append:
  assumes "kills_announced f es1" and "kills_announced f es2"
  shows "kills_announced f (es1 @ es2)"
  unfolding kills_announced_def
proof (intro allI impI)
  fix pre a post
  assume eq: "es1 @ es2 = pre @ Kill a # post"
  then obtain us where
    "(es1 = pre @ us \<and> us @ es2 = Kill a # post) \<or> (es1 @ us = pre \<and> es2 = us @ Kill a # post)"
    by (auto simp: append_eq_append_conv2)
  then show "\<exists>pre'. pre = pre' @ [Poll a None, Stdout (f a)]"
  proof
    assume h: "es1 = pre @ us \<and> us @ es2 = Kill a # post"
    show ?thesis
    proof (cases us)
      case Nil
      with h have "es2 = [] @ Kill a # post" by simp
      with assms(2) have "\<exists>pre'. [] = pre' @ [Poll a None, Stdout (f a)]"
        unfolding kills_announced_def by blast
      then show ?thesis by simp
    next
      case (Cons u us')
      with h have "es1 = pre @ Kill a # us'" by simp
      with assms(1) show ?thesis
        unfolding kills_announced_def by blast
    qed
  next
    assume h: "es1 @ us = pre \<and> es2 = us @ Kill a # post"
    with assms(2) obtain pre' where "us = pre' @ [Poll a None, Stdout (f a)]"
      unfolding kills_announced_def by blast
    with h have "pre = (es1 @ pre') @ [Poll a None, Stdout (f a)]" by simp
    then show ?thesis by blast
  qed
qed

text \<open>What a sweep does to the world: it appends events, and its kills are announced as
  timeouts.\<close>

lemma clean_loop_ext:
  "\<exists>es. snd (clean_loop T ps acc w) = ext w es \<and>
        kills_announced (\<lambda>a. MsgKilledTimeout a T) es \<and>
        (\<forall>a. Stdout (MsgKilledAll a) \<notin> set es) \<and>
        (T \<le> 0 \<longrightarrow> (\<forall>a. Kill a \<notin> set es))"
proof (induction ps arbitrary: acc w)
  case Nil
  show ?case by (rule exI [of _ "[]"]) simp
next
  case (Cons p ps)
  let ?f = "\<lambda>a. MsgKilledTimeout a T"
  let ?Q = "\<lambda>es. kills_announced ?f es \<and> (\<forall>a. Stdout (MsgKilledAll a) \<notin> set es) \<and>
        (T \<le> 0 \<longrightarrow> (\<forall>a. Kill a \<notin> set es))"
  have step: "\<exists>es. snd (clean_loop T ps acc' (ext w b)) = ext w es \<and> ?Q es"
    if b: "?Q b" for acc' b
  proof -
    from Cons.IH [of acc' "ext w b"] obtain es where
      es: "snd (clean_loop T ps acc' (ext w b)) = ext w (b @ es)" "?Q es"
      by auto
    from b es(2) have "?Q (b @ es)"
      by (simp add: kills_announced_append)
    with es(1) show ?thesis by blast
  qed
  have b1: "0 < T \<Longrightarrow> ?Q [Poll (pid p) None, Stdout (MsgKilledTimeout (pid p) T), Kill (pid p)]"
    using kills_announced_block [of ?f "pid p"] by simp
  have b2: "?Q [Poll (pid p) r]" for r
    by (simp add: kills_announced_no_kill)
  show ?case
    unfolding clean_loop_Cons
    using step [OF b1] step [OF b2] by (simp split: if_splits)
qed

lemma killall_loop_ext:
  "\<exists>es. killall_loop ps w = ext w es \<and> kills_announced MsgKilledAll es"
proof (induction ps arbitrary: w)
  case Nil
  show ?case by (rule exI [of _ "[]"]) simp
next
  case (Cons p ps)
  have step: "\<exists>es. killall_loop ps (ext w b) = ext w es \<and> kills_announced MsgKilledAll es"
    if b: "kills_announced MsgKilledAll b" for b
  proof -
    from Cons.IH [of "ext w b"] obtain es where
      es: "killall_loop ps (ext w b) = ext w (b @ es)" "kills_announced MsgKilledAll es"
      by auto
    from b es(2) have "kills_announced MsgKilledAll (b @ es)"
      by (simp add: kills_announced_append)
    with es(1) show ?thesis by blast
  qed
  have b1: "kills_announced MsgKilledAll [Poll (pid p) None, Stdout (MsgKilledAll (pid p)), Kill (pid p)]"
    by simp
  have b2: "kills_announced MsgKilledAll [Poll (pid p) r]" for r
    by (simp add: kills_announced_no_kill)
  show ?case
    unfolding killall_loop_Cons
    using step [OF b1] step [OF b2] by (simp split: if_splits)
qed

section \<open>Facts about one sweep and about killall\<close>

lemma clean_loop_alive_mono:
  "alive (snd (clean_loop T ps acc w)) q \<Longrightarrow> alive w q"
  using clean_loop_ext [of T ps acc w] by auto

lemma killall_loop_alive_mono:
  "alive (killall_loop ps w) q \<Longrightarrow> alive w q"
  using killall_loop_ext [of ps w] by auto

lemma clean_loop_clock [simp]: "clock (snd (clean_loop T ps acc w)) = clock w"
  using clean_loop_ext [of T ps acc w] by auto

lemma killall_loop_clock [simp]: "clock (killall_loop ps w) = clock w"
  using killall_loop_ext [of ps w] by auto

lemma clean_loop_length:
  "length (fst (clean_loop T ps acc w)) \<le> length acc + length ps"
proof (induction ps arbitrary: acc w)
  case Nil
  show ?case by simp
next
  case (Cons p ps)
  have "length (fst (clean_loop T ps (acc @ [p]) w')) \<le> Suc (length acc + length ps)" for w'
    using Cons.IH [of "acc @ [p]" w'] by simp
  moreover have "length (fst (clean_loop T ps acc w')) \<le> Suc (length acc + length ps)" for w'
    using Cons.IH [of acc w'] by simp
  ultimately show ?case
    by (simp add: clean_loop_Cons)
qed

text \<open>What a sweep keeps was in the accumulator, or was polled alive and within its time.\<close>

lemma clean_loop_kept:
  "q \<in> set (fst (clean_loop T ps acc w)) \<Longrightarrow>
     q \<in> set acc \<or> (q \<in> set ps \<and> alive w q \<and> \<not> (T > 0 \<and> get_runtime q w > T))"
proof (induction ps arbitrary: acc w)
  case Nil
  then show ?case by simp
next
  case (Cons p ps)
  show ?case
  proof (cases "alive w p")
    case False
    with Cons.prems
    have "q \<in> set (fst (clean_loop T ps acc (ext w [Poll (pid p) (Some (returncode w p))])))"
      by (simp add: clean_loop_Cons)
    from Cons.IH [OF this] show ?thesis by auto
  next
    case True
    show ?thesis
    proof (cases "T > 0 \<and> get_runtime p w > T")
      case True
      with \<open>alive w p\<close> Cons.prems
      have "q \<in> set (fst (clean_loop T ps acc
               (ext w [Poll (pid p) None, Stdout (MsgKilledTimeout (pid p) T), Kill (pid p)])))"
        by (simp add: clean_loop_Cons)
      from Cons.IH [OF this] show ?thesis by auto
    next
      case False
      with \<open>alive w p\<close> Cons.prems
      have "q \<in> set (fst (clean_loop T ps (acc @ [p]) (ext w [Poll (pid p) None])))"
        by (simp add: clean_loop_Cons)
      from Cons.IH [OF this] False \<open>alive w p\<close> show ?thesis by auto
    qed
  qed
qed

lemma clean_loop_acc:
  "set acc \<subseteq> set (fst (clean_loop T ps acc w))"
proof (induction ps arbitrary: acc w)
  case Nil
  then show ?case by simp
next
  case (Cons p ps)
  have "set acc \<subseteq> set (fst (clean_loop T ps (acc @ [p]) w'))" for w'
    using Cons.IH [of "acc @ [p]" w'] by simp
  with Cons.IH [of acc] show ?case
    by (simp add: clean_loop_Cons)
qed

text \<open>What a sweep finds alive and within its time stays in the list.\<close>

lemma clean_loop_keeps:
  "q \<in> set ps \<Longrightarrow> alive w q \<Longrightarrow> \<not> (T > 0 \<and> get_runtime q w > T) \<Longrightarrow>
     q \<in> set (fst (clean_loop T ps acc w))"
proof (induction ps arbitrary: acc w)
  case Nil
  then show ?case by simp
next
  case (Cons p ps)
  show ?case
  proof (cases "q = p")
    case True
    with Cons.prems have "clean_loop T (p # ps) acc w =
        clean_loop T ps (acc @ [p]) (ext w [Poll (pid p) None])"
      by (auto simp: clean_loop_Cons)
    with True clean_loop_acc [of "acc @ [p]" T ps "ext w [Poll (pid p) None]"]
    show ?thesis by auto
  next
    case False
    with Cons.prems(1) have q: "q \<in> set ps" by simp
    have step: "q \<in> set (fst (clean_loop T ps acc' (ext w b)))" for acc' b
      by (rule Cons.IH [OF q]) (use Cons.prems in simp_all)
    show ?thesis by (simp add: clean_loop_Cons step)
  qed
qed

text \<open>A sweep sends a kill signal to every process it finds alive and over its time.\<close>

lemma clean_loop_trace_mono:
  "e \<in> set (trace w) \<Longrightarrow> e \<in> set (trace (snd (clean_loop T ps acc w)))"
  using clean_loop_ext [of T ps acc w] by auto

lemma clean_loop_kills:
  "q \<in> set ps \<Longrightarrow> alive w q \<Longrightarrow> T > 0 \<Longrightarrow> get_runtime q w > T \<Longrightarrow>
     Kill (pid q) \<in> set (trace (snd (clean_loop T ps acc w)))"
proof (induction ps arbitrary: acc w)
  case Nil
  then show ?case by simp
next
  case (Cons p ps)
  show ?case
  proof (cases "alive w p \<and> get_runtime p w > T \<and> pid p = pid q")
    case True
    let ?w' = "ext w [Poll (pid p) None, Stdout (MsgKilledTimeout (pid p) T), Kill (pid p)]"
    have "Kill (pid q) \<in> set (trace ?w')" using True by simp
    then have "Kill (pid q) \<in> set (trace (snd (clean_loop T ps acc ?w')))"
      by (rule clean_loop_trace_mono)
    with True Cons.prems(3) show ?thesis by (simp add: clean_loop_Cons)
  next
    case False
    with Cons.prems have q: "q \<in> set ps" by auto
    have step: "Kill (pid q) \<in> set (trace (snd (clean_loop T ps acc' (ext w b))))"
      if "Kill (pid q) \<notin> set b" for acc' b
      using q that Cons.prems by (intro Cons.IH) simp_all
    from False Cons.prems show ?thesis
      by (auto simp add: clean_loop_Cons intro!: step)
  qed
qed

text \<open>killall sends a kill signal to every process it finds alive; afterwards none of
  the tracked processes is alive.\<close>

lemma killall_loop_trace_mono:
  "e \<in> set (trace w) \<Longrightarrow> e \<in> set (trace (killall_loop ps w))"
  using killall_loop_ext [of ps w] by auto

lemma killall_loop_kills:
  "q \<in> set ps \<Longrightarrow> alive w q \<Longrightarrow> Kill (pid q) \<in> set (trace (killall_loop ps w))"
proof (induction ps arbitrary: w)
  case Nil
  then show ?case by simp
next
  case (Cons p ps)
  show ?case
  proof (cases "alive w p \<and> pid p = pid q")
    case True
    let ?w' = "ext w [Poll (pid p) None, Stdout (MsgKilledAll (pid p)), Kill (pid p)]"
    have "Kill (pid q) \<in> set (trace ?w')" using True by simp
    then have "Kill (pid q) \<in> set (trace (killall_loop ps ?w'))"
      by (rule killall_loop_trace_mono)
    with True show ?thesis by (simp add: killall_loop_Cons)
  next
    case False
    with Cons.prems have q: "q \<in> set ps" by auto
    have step: "Kill (pid q) \<in> set (trace (killall_loop ps (ext w b)))"
      if "Kill (pid q) \<notin> set b" for b
      using q that Cons.prems by (intro Cons.IH) simp_all
    from False Cons.prems show ?thesis
      by (auto simp add: killall_loop_Cons intro!: step)
  qed
qed


text \<open>The events of a sweep: one poll for every process of the list, in order, and a
  kill signal for every process found alive and over its time.\<close>

lemma poll_targets_append [simp]: "poll_targets (es @ es') = poll_targets es @ poll_targets es'"
  by (induction es rule: poll_targets.induct) auto

lemma clean_loop_events:
  "\<exists>es. snd (clean_loop T ps acc w) = ext w es \<and> poll_targets es = map pid ps \<and>
        (\<forall>q \<in> set ps. alive w q \<and> T > 0 \<and> get_runtime q w > T \<longrightarrow> Kill (pid q) \<in> set es)"
proof (induction ps arbitrary: acc w)
  case Nil
  show ?case by (rule exI [of _ "[]"]) simp
next
  case (Cons p ps)
  let ?K = "\<lambda>q es. alive w q \<and> T > 0 \<and> get_runtime q w > T \<longrightarrow> Kill (pid q) \<in> set es"
  have step: "\<exists>es. snd (clean_loop T ps acc' (ext w b)) = ext w es \<and>
        poll_targets es = map pid (p # ps) \<and> (\<forall>q \<in> set (p # ps). ?K q es)"
    if b: "poll_targets b = [pid p]" "?K p b" for acc' b
  proof -
    from Cons.IH [of acc' "ext w b"] obtain es where
      es: "snd (clean_loop T ps acc' (ext w b)) = ext w (b @ es)" "poll_targets es = map pid ps"
        "\<forall>q \<in> set ps. ?K q es"
      by auto
    from b es(2,3) have "poll_targets (b @ es) = map pid (p # ps) \<and> (\<forall>q \<in> set (p # ps). ?K q (b @ es))"
      by auto
    with es(1) show ?thesis by blast
  qed
  have b1: "poll_targets [Poll (pid p) None, Stdout (MsgKilledTimeout (pid p) T), Kill (pid p)] = [pid p]"
    by simp
  have b2: "poll_targets [Poll (pid p) r] = [pid p]" for r
    by simp
  show ?case
  proof (cases "alive w p")
    case False
    with step [OF b2, of "Some (returncode w p)" acc] show ?thesis
      by (simp add: clean_loop_Cons)
  next
    case True
    show ?thesis
    proof (cases "T > 0 \<and> get_runtime p w > T")
      case True
      with \<open>alive w p\<close> step [OF b1, of acc] show ?thesis
        by (simp add: clean_loop_Cons)
    next
      case False
      with \<open>alive w p\<close> step [OF b2, of None "acc @ [p]"] show ?thesis
        by (auto simp: clean_loop_Cons)
    qed
  qed
qed

text \<open>The events of killall: a kill signal for every process found alive.\<close>

lemma killall_loop_events:
  "\<exists>es. killall_loop ps w = ext w es \<and> poll_targets es = map pid ps \<and>
        (\<forall>q \<in> set ps. alive w q \<longrightarrow> Kill (pid q) \<in> set es)"
proof (induction ps arbitrary: w)
  case Nil
  show ?case by (rule exI [of _ "[]"]) simp
next
  case (Cons p ps)
  let ?K = "\<lambda>q es. alive w q \<longrightarrow> Kill (pid q) \<in> set es"
  have step: "\<exists>es. killall_loop ps (ext w b) = ext w es \<and>
        poll_targets es = map pid (p # ps) \<and> (\<forall>q \<in> set (p # ps). ?K q es)"
    if b: "poll_targets b = [pid p]" "?K p b" for b
  proof -
    from Cons.IH [of "ext w b"] obtain es where
      es: "killall_loop ps (ext w b) = ext w (b @ es)" "poll_targets es = map pid ps"
        "\<forall>q \<in> set ps. ?K q es"
      by auto
    from b es(2,3) have "poll_targets (b @ es) = map pid (p # ps) \<and> (\<forall>q \<in> set (p # ps). ?K q (b @ es))"
      by auto
    with es(1) show ?thesis by blast
  qed
  show ?case
  proof (cases "alive w p")
    case False
    with step [of "[Poll (pid p) (Some (returncode w p))]"] show ?thesis
      by (simp add: killall_loop_Cons)
  next
    case True
    with step [of "[Poll (pid p) None, Stdout (MsgKilledAll (pid p)), Kill (pid p)]"] show ?thesis
      by (simp add: killall_loop_Cons)
  qed
qed

section \<open>Facts about the loops of run and finalize\<close>

lemma sweep_events_Nil [simp]: "sweep_events T []"
  by (simp add: sweep_events_def)

lemma sweep_events_append:
  "sweep_events T es1 \<Longrightarrow> sweep_events T es2 \<Longrightarrow> sweep_events T (es1 @ es2)"
  by (simp add: sweep_events_def kills_announced_append)

lemma sweep_events_waiting [simp]: "sweep_events T [Stdout (MsgWaiting n d)]"
  by (simp add: sweep_events_def kills_announced_no_kill)

lemma clean_fst: "fst (clean self w) = self\<lparr>proc := fst (clean_loop (process_timeout self) (proc self) [] w)\<rparr>"
  by (simp add: clean_def split: prod.splits)

lemma clean_snd: "snd (clean self w) = snd (clean_loop (process_timeout self) (proc self) [] w)"
  by (simp add: clean_def split: prod.splits)

lemma clean_config [simp]:
  "max_processes (fst (clean self w)) = max_processes self"
  "process_timeout (fst (clean self w)) = process_timeout self"
  by (simp_all add: clean_fst)

lemma clean_length: "length (proc (fst (clean self w))) \<le> length (proc self)"
  using clean_loop_length [of "process_timeout self" "proc self" "[]" w] by (simp add: clean_fst)

lemma clean_subset: "set (proc (fst (clean self w))) \<subseteq> set (proc self)"
  using clean_loop_kept [of _ "process_timeout self" "proc self" "[]" w] by (auto simp: clean_fst)

lemma clean_ext:
  "\<exists>es. snd (clean self w) = ext w es \<and> sweep_events (process_timeout self) es"
  using clean_loop_ext [of "process_timeout self" "proc self" "[]" w]
  by (simp add: clean_snd sweep_events_def)

lemma clean_clock [simp]: "clock (snd (clean self w)) = clock w"
  by (simp add: clean_snd)


lemma clean_events:
  "\<exists>es. snd (clean self w) = ext w es \<and> sweep_events (process_timeout self) es \<and>
        poll_targets es = map pid (proc self) \<and>
        (\<forall>q \<in> set (proc self).
           alive w q \<and> process_timeout self > 0 \<and> get_runtime q w > process_timeout self \<longrightarrow>
             Kill (pid q) \<in> set es)"
proof -
  obtain es where es: "snd (clean self w) = ext w es" "sweep_events (process_timeout self) es"
    using clean_ext [of self w] by blast
  obtain es' where es': "snd (clean self w) = ext w es'" "poll_targets es' = map pid (proc self)"
    "\<forall>q \<in> set (proc self).
       alive w q \<and> process_timeout self > 0 \<and> get_runtime q w > process_timeout self \<longrightarrow>
         Kill (pid q) \<in> set es'"
    using clean_loop_events [of "process_timeout self" "proc self" "[]" w]
    by (auto simp: clean_snd)
  from es(1) es'(1) have "es' = es" by (auto dest: ext_same)
  with es es' show ?thesis by blast
qed

lemma clean_keeps:
  "q \<in> set (proc self) \<Longrightarrow> alive w q \<Longrightarrow>
     \<not> (process_timeout self > 0 \<and> get_runtime q w > process_timeout self) \<Longrightarrow>
     q \<in> set (proc (fst (clean self w)))"
  by (simp add: clean_fst clean_loop_keeps)

text \<open>After a sweep a process of the list is still in it, or was not alive, or was sent
  a kill signal by the sweep.\<close>

lemma clean_dropped:
  "\<exists>es. trace (snd (clean self w)) = trace w @ es \<and> sweep_events (process_timeout self) es \<and>
        poll_targets es = map pid (proc self) \<and>
        (\<forall>q \<in> set (proc self).
           q \<in> set (proc (fst (clean self w))) \<or> \<not> alive w q \<or> Kill (pid q) \<in> set es)"
proof -
  obtain es where es: "snd (clean self w) = ext w es" "sweep_events (process_timeout self) es"
    "poll_targets es = map pid (proc self)"
    and k: "\<forall>q \<in> set (proc self).
       alive w q \<and> process_timeout self > 0 \<and> get_runtime q w > process_timeout self \<longrightarrow>
         Kill (pid q) \<in> set es"
    using clean_events [of self w] by blast
  have "q \<in> set (proc (fst (clean self w))) \<or> \<not> alive w q \<or> Kill (pid q) \<in> set es"
    if q: "q \<in> set (proc self)" for q
  proof (cases "alive w q \<and> \<not> (process_timeout self > 0 \<and> get_runtime q w > process_timeout self)")
    case True
    with clean_keeps [OF q] show ?thesis by blast
  next
    case False
    with k q show ?thesis by blast
  qed
  with es show ?thesis by (intro exI [of _ es]) simp
qed

text \<open>What one round of the waiting loop does.\<close>

lemma wait_step_fst: "fst (wait_step self w) = fst (clean self w)"
  by (simp add: wait_step_def split: prod.splits)

lemma wait_step_snd: "snd (wait_step self w) = sleep 1 (snd (clean self w))"
  by (simp add: wait_step_def split: prod.splits)

lemma wait_step_can_spawn [simp]: "can_spawn (snd (wait_step self w)) = can_spawn w"
  using clean_ext [of self w] by (auto simp: wait_step_snd)

text \<open>What holds when the waiting loop of run ends.\<close>

lemma run_wait_Some:
  assumes "run_wait self w = Some y"
  shows "int (length (proc (fst y))) < max_processes self \<and>
         max_processes (fst y) = max_processes self \<and>
         process_timeout (fst y) = process_timeout self \<and>
         length (proc (fst y)) \<le> length (proc self) \<and>
         set (proc (fst y)) \<subseteq> set (proc self) \<and>
         can_spawn (snd y) = can_spawn w"
  using assms
proof (induction rule: run_wait.raw_induct [rotated 1, consumes 1])
  case (1 wait self w y)
  show ?case
  proof (cases "max_processes self \<le> int (length (proc self))")
    case False
    with 1(2) show ?thesis by auto
  next
    case True
    with 1(2) have "wait (fst (wait_step self w)) (snd (wait_step self w)) = Some y"
      by (simp split: prod.splits)
    from 1(1) [OF this] clean_length [of self w] clean_subset [of self w]
    show ?thesis by (auto simp: wait_step_fst)
  qed
qed

lemma spawn_append_Returned:
  assumes "spawn_append cmd self w = Returned self' w'"
  shows "\<exists>p. proc self' = proc self @ [p] \<and> max_processes self' = max_processes self \<and>
             process_timeout self' = process_timeout self"
  using assms
  by (auto simp: spawn_append_def Popen_def Let_def split: if_splits)

lemma spawn_append_Raised:
  "spawn_append cmd self w = Raised e self' w' \<longleftrightarrow>
     (e = OSError \<and> \<not> can_spawn w cmd \<and> self' = self \<and> w' = w)"
  by (cases e) (auto simp: spawn_append_def Popen_def Let_def)

lemma run_Returned:
  assumes "run self w cmd = Some (Returned self' w')"
  shows "\<exists>self1 w1 p. run_wait self w = Some (self1, w1) \<and>
           spawn_append cmd self1 w1 = Returned self' w' \<and>
           int (length (proc self1)) < max_processes self \<and>
           max_processes self1 = max_processes self \<and>
           max_processes self' = max_processes self \<and>
           proc self' = proc self1 @ [p]"
proof -
  from assms obtain self1 w1 where w: "run_wait self w = Some (self1, w1)"
    and sp: "spawn_append cmd self1 w1 = Returned self' w'"
    by (auto simp: run_def split: option.splits)
  from run_wait_Some [OF w] spawn_append_Returned [OF sp] w sp show ?thesis
    by auto
qed

text \<open>Where the waiting loop ends is a state the pool passes through.\<close>

lemma run_wait_pool_states:
  assumes "run_wait self w = Some y"
  shows "(self, w) \<in> pool_states start \<longrightarrow> y \<in> pool_states start"
  using assms
proof (induction rule: run_wait.raw_induct [rotated 1, consumes 1])
  case (1 wait self w y)
  show ?case
  proof (cases "max_processes self \<le> int (length (proc self))")
    case False
    with 1(2) show ?thesis by auto
  next
    case True
    with 1(2) have "wait (fst (wait_step self w)) (snd (wait_step self w)) = Some y"
      by (simp split: prod.splits)
    from 1(1) [OF this] True show ?thesis
      using pool_states.sweep [of self w start] by auto
  qed
qed

lemma pool_states_bounded:
  assumes "x \<in> pool_states (self0, w0)" and "int (length (proc self0)) \<le> max_processes self0"
  shows "int (length (proc (fst x))) \<le> max_processes self0 \<and> max_processes (fst x) = max_processes self0"
  using assms
proof (induction rule: pool_states.induct)
  case initial
  then show ?case by simp
next
  case (sweep self w)
  with clean_length [of self w] show ?case
    by (simp add: wait_step_fst)
next
  case (admit self w cmd self' w')
  with spawn_append_Returned [OF admit(3)] show ?case
    by auto
qed

lemma run_seq_pool_states:
  "run_seq self w cmds = Some (Returned self' w') \<Longrightarrow> (self, w) \<in> pool_states start \<Longrightarrow>
     (self', w') \<in> pool_states start"
proof (induction cmds arbitrary: self w)
  case Nil
  then show ?case by simp
next
  case (Cons cmd cmds)
  from Cons.prems(1) obtain s1 w1 where r: "run self w cmd = Some (Returned s1 w1)"
    and rest: "run_seq s1 w1 cmds = Some (Returned self' w')"
    by (auto split: option.splits outcome.splits)
  from run_Returned [OF r] obtain s2 w2 where wt: "run_wait self w = Some (s2, w2)"
    and sp: "spawn_append cmd s2 w2 = Returned s1 w1"
    and lt: "int (length (proc s2)) < max_processes s2"
    by auto
  from run_wait_pool_states [OF wt] Cons.prems(2) have in2: "(s2, w2) \<in> pool_states start"
    by simp
  from lt have "\<not> max_processes s2 \<le> int (length (proc s2))"
    by simp
  with in2 have "(s1, w1) \<in> pool_states start"
    using sp by (rule pool_states.admit)
  with rest show ?case by (rule Cons.IH)
qed

lemma run_seq_example:
  "\<exists>w. run_seq (ProcessPool_init 0 2) world100 [[''a''], [''b''], [''c'']] =
     Some (Returned \<lparr>proc = [\<lparr>pid = 1, start_time = 100\<rparr>, \<lparr>pid = 3, start_time = 104\<rparr>],
                      process_timeout = 0, max_processes = 2\<rparr> w)"
  by (simp add: run_def run_wait.simps ProcessPool_init_def world100_def wait_step_def clean_def
        clean_loop_Cons alive_def exits_103_def spawn_append_def Popen_def any_command_def
        start_timer_def Let_def ext_def sleep_def emit_def)

text \<open>One round of the loop of finalize is a sweep and a second of sleep, after the
  events of killall (when the global timeout is on and reached) and the progress line.\<close>

lemma finalize_round_shape:
  "\<exists>b. finalize_round timeout verbose stime idx self w =
         (fst (clean self (ext w b)), sleep 1 (snd (clean self (ext w b)))) \<and>
       (timeout > 0 \<and> real_of_int (clock w - stime) \<ge> timeout \<longrightarrow>
          (\<forall>q \<in> set (proc self). alive w q \<longrightarrow> Kill (pid q) \<in> set b)) \<and>
       (\<not> (timeout > 0 \<and> real_of_int (clock w - stime) \<ge> timeout) \<longrightarrow>
          poll_targets b = [] \<and> sweep_events T b)"
proof -
  define m where "m = (if verbose > 0 \<and> idx mod 10 = 0
      then [Stdout (MsgWaiting (length (proc self)) (clock w - stime))] else [])"
  have m: "poll_targets m = []" "sweep_events T m"
    by (simp_all add: m_def)
  show ?thesis
  proof (cases "timeout > 0 \<and> real_of_int (clock w - stime) \<ge> timeout")
    case True
    obtain es where es: "killall_loop (proc self) w = ext w es"
      and k: "\<forall>q \<in> set (proc self). alive w q \<longrightarrow> Kill (pid q) \<in> set es"
      using killall_loop_events [of "proc self" w] by blast
    from True es have "finalize_round timeout verbose stime idx self w =
         (fst (clean self (ext w (es @ m))), sleep 1 (snd (clean self (ext w (es @ m)))))"
      by (simp add: finalize_round_def killall_def Let_def p_msg_ext m_def del: of_int_diff
            split: prod.splits)
    moreover from k have "\<forall>q \<in> set (proc self). alive w q \<longrightarrow> Kill (pid q) \<in> set (es @ m)"
      by simp
    ultimately show ?thesis using True by blast
  next
    case False
    then have "finalize_round timeout verbose stime idx self w =
         (fst (clean self (ext w m)), sleep 1 (snd (clean self (ext w m))))"
      by (auto simp add: finalize_round_def Let_def p_msg_ext m_def simp del: of_int_diff
            split: prod.splits)
    with False m show ?thesis by blast
  qed
qed

lemma finalize_round_facts:
  assumes "finalize_round timeout verbose stime idx self w = (self', w')"
  shows "clock w' = clock w + 1"
    and "process_timeout self' = process_timeout self"
    and "set (proc self') \<subseteq> set (proc self)"
    and "alive w' p \<Longrightarrow> alive w p"
    and "\<exists>es. trace w' = trace w @ es \<and>
           (\<not> (timeout > 0 \<and> real_of_int (clock w - stime) \<ge> timeout) \<longrightarrow>
              sweep_events (process_timeout self) es \<and> poll_targets es = map pid (proc self))"
    and "\<forall>q \<in> set (proc self). q \<in> set (proc self') \<or> \<not> alive w' q"
    and "timeout > 0 \<and> real_of_int (clock w - stime) \<ge> timeout \<Longrightarrow>
           \<forall>q \<in> set (proc self). \<not> alive w' q"
proof -
  let ?T = "process_timeout self"
  obtain b where r: "finalize_round timeout verbose stime idx self w =
         (fst (clean self (ext w b)), sleep 1 (snd (clean self (ext w b))))"
    and kb: "timeout > 0 \<and> real_of_int (clock w - stime) \<ge> timeout \<longrightarrow>
          (\<forall>q \<in> set (proc self). alive w q \<longrightarrow> Kill (pid q) \<in> set b)"
    and nb: "\<not> (timeout > 0 \<and> real_of_int (clock w - stime) \<ge> timeout) \<longrightarrow>
          poll_targets b = [] \<and> sweep_events ?T b"
    using finalize_round_shape [of timeout verbose stime idx self w ?T] by blast
  from r assms have s': "self' = fst (clean self (ext w b))"
    and w': "w' = sleep 1 (snd (clean self (ext w b)))" by simp_all
  obtain es where es: "trace (snd (clean self (ext w b))) = trace (ext w b) @ es"
    "sweep_events ?T es" "poll_targets es = map pid (proc self)"
    and d: "\<forall>q \<in> set (proc self).
           q \<in> set (proc (fst (clean self (ext w b)))) \<or> \<not> alive (ext w b) q \<or> Kill (pid q) \<in> set es"
    using clean_dropped [of self "ext w b"] by blast
  obtain es0 where c: "snd (clean self (ext w b)) = ext (ext w b) es0"
    using clean_ext [of self "ext w b"] by blast
  show "clock w' = clock w + 1" by (simp add: w')
  show "process_timeout self' = ?T" by (simp add: s')
  show "set (proc self') \<subseteq> set (proc self)" using clean_subset [of self "ext w b"] by (simp add: s')
  show am: "alive w' p \<Longrightarrow> alive w p" for p
    using alive_sleep [of 1 "snd (clean self (ext w b))" p] by (simp add: w' c)
  from es(1) have tr: "trace w' = trace w @ (b @ es)" by (simp add: w')
  from nb es(2,3) have "\<not> (timeout > 0 \<and> real_of_int (clock w - stime) \<ge> timeout) \<longrightarrow>
       sweep_events ?T (b @ es) \<and> poll_targets (b @ es) = map pid (proc self)"
    by (simp add: sweep_events_append)
  with tr show "\<exists>es. trace w' = trace w @ es \<and>
           (\<not> (timeout > 0 \<and> real_of_int (clock w - stime) \<ge> timeout) \<longrightarrow>
              sweep_events ?T es \<and> poll_targets es = map pid (proc self))"
    by blast
  have sig: "\<not> alive w' q" if "Kill (pid q) \<in> set (b @ es)" for q
    using that tr signalled_sleep [of q "snd (clean self (ext w b))" 1] es(1) by (simp add: w')
  show "\<forall>q \<in> set (proc self). q \<in> set (proc self') \<or> \<not> alive w' q"
  proof
    fix q assume "q \<in> set (proc self)"
    with d have "q \<in> set (proc self') \<or> \<not> alive w q \<or> Kill (pid q) \<in> set es"
      by (simp add: s')
    with am [of q] sig [of q] show "q \<in> set (proc self') \<or> \<not> alive w' q" by auto
  qed
  show "\<forall>q \<in> set (proc self). \<not> alive w' q"
    if "timeout > 0 \<and> real_of_int (clock w - stime) \<ge> timeout"
  proof
    fix q assume "q \<in> set (proc self)"
    with kb that have "alive w q \<longrightarrow> Kill (pid q) \<in> set b" by blast
    with am [of q] sig [of q] show "\<not> alive w' q" by auto
  qed
qed

text \<open>What holds when the loop of finalize ends.\<close>

lemma finalize_loop_Some:
  assumes "finalize_loop timeout verbose stime idx self w = Some y"
  shows "proc (fst y) = []"
  using assms
proof (induction rule: finalize_loop.raw_induct [rotated 1, consumes 1])
  case (1 loop timeout verbose stime idx self w y)
  show ?case
  proof (cases "proc self = []")
    case True
    with 1(2) show ?thesis by auto
  next
    case False
    with 1(2) obtain idx' self' w' where "loop timeout verbose stime idx' self' w' = Some y"
      by (auto split: prod.splits)
    then show ?thesis by (rule 1(1))
  qed
qed

text \<open>Where the loop of finalize ends is a state it passed through.\<close>

lemma finalize_loop_drain_states:
  assumes "finalize_loop timeout verbose stime idx self w = Some y"
  shows "(idx, self, w) \<in> drain_states timeout verbose stime start \<longrightarrow>
           (\<exists>idx'. (idx', y) \<in> drain_states timeout verbose stime start)"
  using assms
proof (induction rule: finalize_loop.raw_induct [rotated 1, consumes 1])
  case (1 loop timeout verbose stime idx self w y)
  show ?case
  proof (cases "proc self = []")
    case True
    with 1(2) show ?thesis by auto
  next
    case False
    obtain self' w' where r: "finalize_round timeout verbose stime idx self w = (self', w')"
      by (cases "finalize_round timeout verbose stime idx self w")
    with False 1(2) have "loop timeout verbose stime (idx + 1) self' w' = Some y"
      by simp
    from 1(1) [OF this] False r show ?thesis
      using drain_states.round [of idx self w timeout verbose stime start self' w'] by auto
  qed
qed

text \<open>What holds at every state the loop of finalize passes through.\<close>

lemma drain_states_facts:
  assumes "x \<in> drain_states timeout verbose stime (i0, self0, w0)"
  shows "process_timeout (fst (snd x)) = process_timeout self0 \<and>
         (\<forall>p. alive (snd (snd x)) p \<longrightarrow> alive w0 p) \<and>
         (\<forall>p \<in> set (proc self0). p \<in> set (proc (fst (snd x))) \<or> \<not> alive (snd (snd x)) p) \<and>
         (\<exists>es. trace (snd (snd x)) = trace w0 @ es \<and>
               (timeout \<le> 0 \<longrightarrow> sweep_events (process_timeout self0) es))"
  using assms
proof (induction rule: drain_states.induct)
  case first
  show ?case by (auto intro!: exI [of _ "[]"])
next
  case (round idx self w self' w')
  note f = finalize_round_facts [OF round(3)]
  from round(4) have T: "process_timeout self = process_timeout self0"
    and am: "\<forall>p. alive w p \<longrightarrow> alive w0 p"
    and tr: "\<forall>p \<in> set (proc self0). p \<in> set (proc self) \<or> \<not> alive w p"
    by simp_all
  from round(4) obtain es where es: "trace w = trace w0 @ es"
    "timeout \<le> 0 \<longrightarrow> sweep_events (process_timeout self0) es"
    by auto
  from f(5) obtain es' where es': "trace w' = trace w @ es'"
    "\<not> (timeout > 0 \<and> real_of_int (clock w - stime) \<ge> timeout) \<longrightarrow>
       sweep_events (process_timeout self) es'"
    by auto
  have 1: "process_timeout self' = process_timeout self0"
    using f(2) T by simp
  have 2: "\<forall>p. alive w' p \<longrightarrow> alive w0 p"
    using f(4) am by blast
  have 3: "\<forall>p \<in> set (proc self0). p \<in> set (proc self') \<or> \<not> alive w' p"
    using tr f(4) f(6) by blast
  from es es' T have "trace w' = trace w0 @ (es @ es') \<and>
      (timeout \<le> 0 \<longrightarrow> sweep_events (process_timeout self0) (es @ es'))"
    by (auto simp: sweep_events_append)
  then have 4: "\<exists>es. trace w' = trace w0 @ es \<and>
      (timeout \<le> 0 \<longrightarrow> sweep_events (process_timeout self0) es)"
    by blast
  from 1 2 3 4 show ?case by simp
qed

lemma finalize_unfold:
  "finalize self w timeout verbose =
     finalize_loop timeout verbose (clock w) 0 (fst (clean self w)) (snd (clean self w))"
  by (simp add: finalize_def Let_def split: prod.splits)

lemma finalize_states_unfold:
  "finalize_states self w timeout verbose =
     drain_states timeout verbose (clock w) (0, fst (clean self w), snd (clean self w))"
  by (simp add: finalize_states_def)

text \<open>The same from the call of finalize on: the first sweep is not followed by a sleep,
  so a process it sent a signal to may still count as alive.\<close>

lemma finalize_states_facts:
  assumes "(idx, self', w') \<in> finalize_states self w timeout verbose"
  shows "process_timeout self' = process_timeout self"
    and "\<exists>es. trace w' = trace w @ es \<and>
           (timeout \<le> 0 \<longrightarrow> sweep_events (process_timeout self) es) \<and>
           (\<forall>p \<in> set (proc self). p \<in> set (proc self') \<or> \<not> alive w' p \<or> Kill (pid p) \<in> set es)"
proof -
  let ?T = "process_timeout self"
  let ?s1 = "fst (clean self w)"
  let ?w1 = "snd (clean self w)"
  from assms have x: "(idx, self', w') \<in> drain_states timeout verbose (clock w) (0, ?s1, ?w1)"
    by (simp add: finalize_states_unfold)
  note d = drain_states_facts [OF x]
  obtain es0 where es0: "trace ?w1 = trace w @ es0" "sweep_events ?T es0"
    and d0: "\<forall>q \<in> set (proc self). q \<in> set (proc ?s1) \<or> \<not> alive w q \<or> Kill (pid q) \<in> set es0"
    using clean_dropped [of self w] by blast
  obtain es0' where c: "?w1 = ext w es0'"
    using clean_ext [of self w] by blast
  from d show "process_timeout self' = ?T" by simp
  from d obtain es where es: "trace w' = trace ?w1 @ es" "timeout \<le> 0 \<longrightarrow> sweep_events ?T es"
    by auto
  from d have am: "\<forall>p. alive w' p \<longrightarrow> alive w p"
    by (simp add: c)
  from d have tr: "\<forall>p \<in> set (proc ?s1). p \<in> set (proc self') \<or> \<not> alive w' p"
    by simp
  have "p \<in> set (proc self') \<or> \<not> alive w' p \<or> Kill (pid p) \<in> set (es0 @ es)"
    if "p \<in> set (proc self)" for p
    using that d0 am tr by auto
  moreover from es0 es have "trace w' = trace w @ (es0 @ es)"
    "timeout \<le> 0 \<longrightarrow> sweep_events ?T (es0 @ es)"
    by (simp_all add: sweep_events_append)
  ultimately show "\<exists>es. trace w' = trace w @ es \<and>
           (timeout \<le> 0 \<longrightarrow> sweep_events ?T es) \<and>
           (\<forall>p \<in> set (proc self). p \<in> set (proc self') \<or> \<not> alive w' p \<or> Kill (pid p) \<in> set es)"
    by blast
qed



text \<open>Calls of finalize on the two children that never exit by themselves, and on a
  child that exits at second 103.\<close>

lemma finalize_example_timeout:
  "\<exists>w'. finalize (pool12 0 8) world105 2 1 =
          Some (\<lparr>proc = [], process_timeout = 0, max_processes = 8\<rparr>, w') \<and> clock w' = 109"
  by (simp add: finalize_unfold finalize_loop.simps finalize_round_def pool12_def world105_def
        clean_def clean_loop_Cons killall_def killall_loop_Cons alive_def never_exits_def
        child1_def child2_def Let_def ext_def sleep_def p_msg_def emit_def)

lemma finalize_example_fraction:
  "\<exists>w'. finalize (pool12 0 8) world105 (1 / 2) 1 =
          Some (\<lparr>proc = [], process_timeout = 0, max_processes = 8\<rparr>, w') \<and> clock w' = 108"
  by (simp add: finalize_unfold finalize_loop.simps finalize_round_def pool12_def world105_def
        clean_def clean_loop_Cons killall_def killall_loop_Cons alive_def never_exits_def
        child1_def child2_def Let_def ext_def sleep_def p_msg_def emit_def)

lemma finalize_example_exit:
  "\<exists>w'. finalize (pool2 0 8) world100 0 1 =
          Some (\<lparr>proc = [], process_timeout = 0, max_processes = 8\<rparr>, w') \<and> clock w' = 104 \<and>
        trace w' = [Poll 2 None, Stdout (MsgWaiting 1 0), Poll 2 None, Poll 2 None, Poll 2 None,
                    Poll 2 (Some 0)]"
  by (simp add: finalize_unfold finalize_loop.simps finalize_round_def pool2_def world100_def
        clean_def clean_loop_Cons alive_def returncode_def exits_103_def exit_code0_def
        child2_def Let_def ext_def sleep_def p_msg_def emit_def)

lemma finalize_example_overtime:
  "\<exists>w'. finalize (pool12 6 8) world105 0 0 =
          Some (\<lparr>proc = [], process_timeout = 6, max_processes = 8\<rparr>, w') \<and> clock w' = 108 \<and>
        trace w' = [Poll 1 None, Poll 2 None, Poll 1 None, Poll 2 None, Poll 1 None, Poll 2 None,
                    Poll 1 None, Stdout (MsgKilledTimeout 1 6), Kill 1,
                    Poll 2 None, Stdout (MsgKilledTimeout 2 6), Kill 2]"
  by (simp add: finalize_unfold finalize_loop.simps finalize_round_def pool12_def world105_def
        clean_def clean_loop_Cons alive_def never_exits_def get_runtime_def
        child1_def child2_def Let_def ext_def sleep_def p_msg_def emit_def)

lemma clean_example:
  "clean (pool12 0 8) world105 = (pool12 0 8, ext world105 [Poll 1 None, Poll 2 None])"
  by (simp add: pool12_def world105_def clean_def clean_loop_Cons alive_def never_exits_def
        child1_def child2_def ext_def)

lemma finalize_example_round:
  "finalize_round 0 1 (clock world105) 0 (pool12 0 8) (ext world105 [Poll 1 None, Poll 2 None]) =
     (pool12 0 8, sleep 1 (ext world105 [Poll 1 None, Poll 2 None, Stdout (MsgWaiting 2 0),
                                         Poll 1 None, Poll 2 None]))"
  by (simp add: finalize_round_def pool12_def world105_def
        clean_def clean_loop_Cons alive_def never_exits_def
        child1_def child2_def Let_def ext_def p_msg_def emit_def numeral_2_eq_2)

section \<open>Facts about the file names\<close>

lemma rstrip_slashes_id: "s = [] \<or> last s \<noteq> CHR ''/'' \<Longrightarrow> rstrip_slashes s = s"
  by (cases s rule: rev_cases) (auto simp: rstrip_slashes_def)

lemma sub_path_id: "CHR ''/'' \<notin> set s \<Longrightarrow> sub_path s = s"
proof (induction s)
  case Nil
  show ?case by simp
next
  case (Cons c cs)
  have "CHR ''/'' \<notin> set (takeWhile (\<lambda>d. d \<noteq> newline) (c # cs))"
    using Cons.prems set_takeWhileD by fastforce
  with Cons show ?case by simp
qed

lemma replace_char_absent: "a \<notin> set s \<Longrightarrow> replace_char a b s = s"
  by (induction s) (auto simp: replace_char_def)

lemma replace_char_back: "b \<notin> set s \<Longrightarrow> replace_char b a (replace_char a b s) = s"
  by (induction s) (auto simp: replace_char_def)

lemma replace_char_set: "a \<noteq> b \<Longrightarrow> a \<notin> set (replace_char a b s)"
  by (induction s) (auto simp: replace_char_def)

lemma replace_char_other: "c \<notin> set s \<Longrightarrow> c \<noteq> b \<Longrightarrow> c \<notin> set (replace_char a b s)"
  by (induction s) (auto simp: replace_char_def)

lemma replace_char_append: "replace_char a b (s @ t) = replace_char a b s @ replace_char a b t"
  by (simp add: replace_char_def)

lemma sub_scheme_http:
  assumes "r = [] \<or> hd r \<noteq> CHR ''/''"
  shows "sub_scheme (''http://'' @ r) = r"
proof -
  have "dropWhile (\<lambda>c. c = CHR ''/'') r = r"
    using assms by (cases r) auto
  then show ?thesis by (simp add: sub_scheme_def)
qed

lemma sub_trailing_slashes_id:
  assumes "t = [] \<or> last t \<noteq> CHR ''/''" and "\<not> suffix [CHR ''/'', newline] t"
  shows "sub_trailing_slashes t = t"
proof (cases "t \<noteq> [] \<and> last t = newline")
  case True
  then obtain u where t: "t = u @ [newline]"
    by (cases t rule: rev_cases) auto
  with assms(2) have "u = [] \<or> last u \<noteq> CHR ''/''"
    by (cases u rule: rev_cases) (auto simp: suffix_def)
  then have "rstrip_slashes u = u" by (rule rstrip_slashes_id)
  with t show ?thesis by (simp add: sub_trailing_slashes_def)
next
  case False
  with assms(1) show ?thesis
    by (auto simp: sub_trailing_slashes_def rstrip_slashes_id)
qed

lemma filename_roundtrip_newline:
  "plain_remainder (''a/'' @ [newline]) \<and>
   guessUrlFromFilename (url2filename (''http://'' @ ''a/'' @ [newline])) = ''http://a'' @ [newline]"
  by (simp add: plain_remainder_def newline_def) code_simp


section \<open>The claims\<close>

subsection \<open>killall\<close>

text \<open>
  C1 (as amended). \<^verbatim>\<open>killall\<close> leaves the running set as it was: it sends a kill
  signal to every tracked process that \<^verbatim>\<open>poll()\<close> finds running, and the processes
  leave \<^verbatim>\<open>self.proc\<close> only in a later sweep. On an empty running set it changes
  nothing at all: no signal, no output, no error.
\<close>

theorem killall_keeps_running_set:
  "proc (fst (killall self w)) = proc self \<and>
   (\<forall>p \<in> set (proc self). alive w p \<longrightarrow> Kill (pid p) \<in> set (trace (snd (killall self w)))) \<and>
   (proc self = [] \<longrightarrow> killall self w = (self, w))"
  by (simp add: killall_def killall_loop_kills)

theorem killall_keeps_running_set_witness:
  "alive world105 child1 \<and> child1 \<in> set (proc (pool12 0 8)) \<and>
   Kill (pid child1) \<in> set (trace (snd (killall (pool12 0 8) world105))) \<and>
   proc (fst (killall (pool12 0 8) world105)) = proc (pool12 0 8) \<and>
   killall (ProcessPool_init 0 8) world105 = (ProcessPool_init 0 8, world105)"
proof -
  have a: "alive world105 child1"
    by (simp add: alive_def world105_def child1_def never_exits_def)
  have m: "child1 \<in> set (proc (pool12 0 8))"
    by (simp add: pool12_def)
  have e: "proc (ProcessPool_init 0 8) = []"
    by (simp add: ProcessPool_init_def)
  from a m e killall_keeps_running_set [of "pool12 0 8" world105]
    killall_keeps_running_set [of "ProcessPool_init 0 8" world105]
  show ?thesis by blast
qed

text \<open>The claim as written asks for an empty running set after \<^verbatim>\<open>killall\<close>; with two
  running children the list still holds both.\<close>

theorem killall_empties_counterexample:
  "proc (pool12 0 8) \<noteq> [] \<and> proc (fst (killall (pool12 0 8) world105)) = [child1, child2]"
  by (simp add: killall_def pool12_def)

subsection \<open>The running set stays within max_processes\<close>

text \<open>
  C2. Start from a pool whose running set holds at most \<^verbatim>\<open>max_processes\<close> processes (a
  new pool holds none). Then every state the pool passes through during any sequence of
  \<^verbatim>\<open>run\<close> calls, at every round of the waiting loop and after every new child, holds at
  most \<^verbatim>\<open>max_processes\<close> processes; the state after any sequence of calls that return
  is such a state; and a call that returns has appended exactly one process to what the
  waiting loop left, which was strictly below \<^verbatim>\<open>max_processes\<close>.
\<close>

theorem running_set_bounded:
  assumes "int (length (proc self0)) \<le> max_processes self0"
  shows "(\<forall>self w. (self, w) \<in> pool_states (self0, w0) \<longrightarrow>
            int (length (proc self)) \<le> max_processes self0) \<and>
         (\<forall>cmds self w. run_seq self0 w0 cmds = Some (Returned self w) \<longrightarrow>
            (self, w) \<in> pool_states (self0, w0)) \<and>
         (\<forall>cmd self w. run self0 w0 cmd = Some (Returned self w) \<longrightarrow>
            (\<exists>self1 w1 p. run_wait self0 w0 = Some (self1, w1) \<and>
               int (length (proc self1)) < max_processes self0 \<and> proc self = proc self1 @ [p]))"
proof (intro conjI allI impI)
  fix self w
  assume "(self, w) \<in> pool_states (self0, w0)"
  from pool_states_bounded [OF this assms] show "int (length (proc self)) \<le> max_processes self0"
    by simp
next
  fix cmds self w
  assume "run_seq self0 w0 cmds = Some (Returned self w)"
  then show "(self, w) \<in> pool_states (self0, w0)"
    by (rule run_seq_pool_states) (rule pool_states.initial)
next
  fix cmd self w
  assume "run self0 w0 cmd = Some (Returned self w)"
  from run_Returned [OF this]
  show "\<exists>self1 w1 p. run_wait self0 w0 = Some (self1, w1) \<and>
               int (length (proc self1)) < max_processes self0 \<and> proc self = proc self1 @ [p]"
    by blast
qed

theorem running_set_bounded_witness:
  "int (length (proc (ProcessPool_init 0 2))) \<le> max_processes (ProcessPool_init 0 2) \<and>
   (\<exists>self w. run_seq (ProcessPool_init 0 2) world100 [[''a''], [''b''], [''c'']] =
        Some (Returned self w) \<and>
      (self, w) \<in> pool_states (ProcessPool_init 0 2, world100) \<and>
      proc self = [\<lparr>pid = 1, start_time = 100\<rparr>, \<lparr>pid = 3, start_time = 104\<rparr>] \<and>
      int (length (proc self)) \<le> max_processes (ProcessPool_init 0 2))"
proof -
  have h: "int (length (proc (ProcessPool_init 0 2))) \<le> max_processes (ProcessPool_init 0 2)"
    by (simp add: ProcessPool_init_def)
  from run_seq_example obtain w where
    r: "run_seq (ProcessPool_init 0 2) world100 [[''a''], [''b''], [''c'']] =
     Some (Returned \<lparr>proc = [\<lparr>pid = 1, start_time = 100\<rparr>, \<lparr>pid = 3, start_time = 104\<rparr>],
                      process_timeout = 0, max_processes = 2\<rparr> w)" ..
  from running_set_bounded [OF h, of world100] r
  have "(\<lparr>proc = [\<lparr>pid = 1, start_time = 100\<rparr>, \<lparr>pid = 3, start_time = 104\<rparr>],
                      process_timeout = 0, max_processes = 2\<rparr>, w)
          \<in> pool_states (ProcessPool_init 0 2, world100)"
    by blast
  with h r show ?thesis
    by (auto simp: ProcessPool_init_def)
qed

subsection \<open>finalize\<close>

text \<open>
  C3. Whatever the pool, the world, the global timeout and the verbosity: when
  \<^verbatim>\<open>finalize\<close> returns, \<^verbatim>\<open>self.proc\<close> is the empty list.
\<close>

theorem finalize_returns_empty:
  assumes "finalize self w timeout verbose = Some (self', w')"
  shows "proc self' = []"
  using finalize_loop_Some [of timeout verbose "clock w" 0 "fst (clean self w)" "snd (clean self w)" "(self', w')"]
    assms by (simp add: finalize_unfold)

theorem finalize_returns_empty_witness:
  "\<exists>self' w'. finalize (pool12 0 8) world105 2 1 = Some (self', w') \<and> proc self' = []"
proof -
  from finalize_example_timeout obtain w' where
    f: "finalize (pool12 0 8) world105 2 1 = Some (\<lparr>proc = [], process_timeout = 0, max_processes = 8\<rparr>, w')"
    by blast
  from finalize_returns_empty [OF f] f show ?thesis by blast
qed




text \<open>
  C6. With global timeout 0, at every state \<^verbatim>\<open>finalize\<close> passes through, whether or not
  the call ever returns, the events added since the call hold no line of \<^verbatim>\<open>killall\<close>,
  every kill signal among them directly follows the poll that found the process running
  and the line that announces its per-process timeout (and there is none when
  \<^verbatim>\<open>process_timeout\<close> is off), and every process tracked at the call is still in the
  list, or is no longer alive, or was sent such a signal. Every round from such a state
  adds events of that kind only and polls each process of the list exactly once, in
  order: the one sweep, with no \<^verbatim>\<open>killall\<close> before it. When \<^verbatim>\<open>finalize\<close> returns, the
  list is empty and the state is one of those.
\<close>

theorem finalize_without_timeout:
  "(\<forall>idx self' w'. (idx, self', w') \<in> finalize_states self w 0 verbose \<longrightarrow>
      (\<exists>es. trace w' = trace w @ es \<and> sweep_events (process_timeout self) es \<and>
         (\<forall>p \<in> set (proc self).
            p \<in> set (proc self') \<or> \<not> alive w' p \<or> Kill (pid p) \<in> set es)) \<and>
      (\<forall>self2 w2. finalize_round 0 verbose (clock w) idx self' w' = (self2, w2) \<longrightarrow>
         (\<exists>es. trace w2 = trace w' @ es \<and> sweep_events (process_timeout self) es \<and>
            poll_targets es = map pid (proc self')))) \<and>
   (\<forall>self' w'. finalize self w 0 verbose = Some (self', w') \<longrightarrow>
      proc self' = [] \<and> (\<exists>idx. (idx, self', w') \<in> finalize_states self w 0 verbose))"
proof (intro conjI allI impI)
  fix idx self' w'
  assume x: "(idx, self', w') \<in> finalize_states self w 0 verbose"
  from finalize_states_facts(2) [OF x]
  show "\<exists>es. trace w' = trace w @ es \<and> sweep_events (process_timeout self) es \<and>
         (\<forall>p \<in> set (proc self).
            p \<in> set (proc self') \<or> \<not> alive w' p \<or> Kill (pid p) \<in> set es)"
    by simp
next
  fix idx self' w' self2 w2
  assume x: "(idx, self', w') \<in> finalize_states self w 0 verbose"
    and r: "finalize_round 0 verbose (clock w) idx self' w' = (self2, w2)"
  from finalize_round_facts(5) [OF r] finalize_states_facts(1) [OF x]
  show "\<exists>es. trace w2 = trace w' @ es \<and> sweep_events (process_timeout self) es \<and>
            poll_targets es = map pid (proc self')"
    by simp
next
  fix self' w'
  assume "finalize self w 0 verbose = Some (self', w')"
  then have f: "finalize_loop 0 verbose (clock w) 0 (fst (clean self w)) (snd (clean self w))
      = Some (self', w')"
    by (simp add: finalize_unfold)
  from finalize_loop_Some [OF f] show "proc self' = []" by simp
  have "(0, fst (clean self w), snd (clean self w))
      \<in> drain_states 0 verbose (clock w) (0, fst (clean self w), snd (clean self w))"
    by (rule drain_states.first)
  with finalize_loop_drain_states [OF f, of "(0, fst (clean self w), snd (clean self w))"]
  show "\<exists>idx. (idx, self', w') \<in> finalize_states self w 0 verbose"
    by (auto simp: finalize_states_unfold)
qed

theorem finalize_without_timeout_witness:
  "(\<exists>self1 w1. (1, self1, w1) \<in> finalize_states (pool12 0 8) world105 0 1 \<and>
      proc self1 = [child1, child2] \<and>
      trace w1 = [Poll 1 None, Poll 2 None, Stdout (MsgWaiting 2 0), Poll 1 None, Poll 2 None] \<and>
      sweep_events 0 (trace w1)) \<and>
   (\<exists>self' w'. finalize (pool2 0 8) world100 0 1 = Some (self', w') \<and> proc self' = [] \<and>
      trace w' = [Poll 2 None, Stdout (MsgWaiting 1 0), Poll 2 None, Poll 2 None, Poll 2 None,
                  Poll 2 (Some 0)] \<and>
      sweep_events 0 (trace w') \<and> \<not> alive w' child2) \<and>
   (\<exists>self' w'. finalize (pool12 6 8) world105 0 0 = Some (self', w') \<and> proc self' = [] \<and>
      trace w' = [Poll 1 None, Poll 2 None, Poll 1 None, Poll 2 None, Poll 1 None, Poll 2 None,
                  Poll 1 None, Stdout (MsgKilledTimeout 1 6), Kill 1,
                  Poll 2 None, Stdout (MsgKilledTimeout 2 6), Kill 2] \<and>
      sweep_events 6 (trace w'))"
proof (intro conjI)
  let ?w0 = "ext world105 [Poll 1 None, Poll 2 None]"
  let ?w1 = "sleep 1 (ext world105 [Poll 1 None, Poll 2 None, Stdout (MsgWaiting 2 0),
                                    Poll 1 None, Poll 2 None])"
  have "(0, pool12 0 8, ?w0) \<in> finalize_states (pool12 0 8) world105 0 1"
    by (simp add: finalize_states_unfold clean_example drain_states.first)
  then have "(0, pool12 0 8, ?w0) \<in> drain_states 0 1 (clock world105) (0, pool12 0 8, ?w0)"
    by (simp add: finalize_states_unfold clean_example)
  moreover have "0 < length (proc (pool12 0 8))"
    by (simp add: pool12_def)
  ultimately have "(0 + 1, pool12 0 8, ?w1) \<in> drain_states 0 1 (clock world105) (0, pool12 0 8, ?w0)"
    using finalize_example_round by (rule drain_states.round)
  then have m: "(1, pool12 0 8, ?w1) \<in> finalize_states (pool12 0 8) world105 0 1"
    by (simp add: finalize_states_unfold clean_example)
  have t: "trace ?w1 = [Poll 1 None, Poll 2 None, Stdout (MsgWaiting 2 0), Poll 1 None, Poll 2 None]"
    by (simp add: world105_def)
  from finalize_without_timeout [of "pool12 0 8" world105 1] m
  obtain es where "trace ?w1 = trace world105 @ es" "sweep_events (process_timeout (pool12 0 8)) es"
    by blast
  then have "sweep_events 0 (trace ?w1)"
    by (simp add: world105_def pool12_def)
  with m t show "\<exists>self1 w1. (1, self1, w1) \<in> finalize_states (pool12 0 8) world105 0 1 \<and>
      proc self1 = [child1, child2] \<and>
      trace w1 = [Poll 1 None, Poll 2 None, Stdout (MsgWaiting 2 0), Poll 1 None, Poll 2 None] \<and>
      sweep_events 0 (trace w1)"
    by (intro exI [of _ "pool12 0 8"] exI [of _ ?w1]) (simp add: pool12_def)
next
  from finalize_example_exit obtain w' where
    f: "finalize (pool2 0 8) world100 0 1 =
          Some (\<lparr>proc = [], process_timeout = 0, max_processes = 8\<rparr>, w')"
    and t: "trace w' = [Poll 2 None, Stdout (MsgWaiting 1 0), Poll 2 None, Poll 2 None, Poll 2 None,
                    Poll 2 (Some 0)]"
    by blast
  from finalize_without_timeout [of "pool2 0 8" world100 1] f
  obtain idx where
    "(idx, \<lparr>proc = [], process_timeout = 0, max_processes = 8\<rparr>, w')
       \<in> finalize_states (pool2 0 8) world100 0 1"
    by blast
  with finalize_without_timeout [of "pool2 0 8" world100 1]
  obtain es where es: "trace w' = trace world100 @ es" "sweep_events (process_timeout (pool2 0 8)) es"
    "\<forall>p \<in> set (proc (pool2 0 8)).
       p \<in> set (proc \<lparr>proc = [], process_timeout = 0, max_processes = 8\<rparr>) \<or> \<not> alive w' p \<or>
       Kill (pid p) \<in> set es"
    by blast
  from es(1) t have "es = trace w'" by (simp add: world100_def)
  with es t have "sweep_events 0 (trace w')" "\<not> alive w' child2"
    by (auto simp: pool2_def)
  with f t show "\<exists>self' w'. finalize (pool2 0 8) world100 0 1 = Some (self', w') \<and> proc self' = [] \<and>
      trace w' = [Poll 2 None, Stdout (MsgWaiting 1 0), Poll 2 None, Poll 2 None, Poll 2 None,
                  Poll 2 (Some 0)] \<and>
      sweep_events 0 (trace w') \<and> \<not> alive w' child2"
    by auto
next
  from finalize_example_overtime obtain w' where
    f: "finalize (pool12 6 8) world105 0 0 =
          Some (\<lparr>proc = [], process_timeout = 6, max_processes = 8\<rparr>, w')"
    and t: "trace w' = [Poll 1 None, Poll 2 None, Poll 1 None, Poll 2 None, Poll 1 None, Poll 2 None,
                    Poll 1 None, Stdout (MsgKilledTimeout 1 6), Kill 1,
                    Poll 2 None, Stdout (MsgKilledTimeout 2 6), Kill 2]"
    by blast
  from finalize_without_timeout [of "pool12 6 8" world105 0] f
  obtain idx where
    "(idx, \<lparr>proc = [], process_timeout = 6, max_processes = 8\<rparr>, w')
       \<in> finalize_states (pool12 6 8) world105 0 0"
    by blast
  with finalize_without_timeout [of "pool12 6 8" world105 0]
  obtain es where es: "trace w' = trace world105 @ es" "sweep_events (process_timeout (pool12 6 8)) es"
    by blast
  from es(1) have "es = trace w'" by (simp add: world105_def)
  with es(2) have "sweep_events 6 (trace w')"
    by (simp add: pool12_def)
  with f t show "\<exists>self' w'. finalize (pool12 6 8) world105 0 0 = Some (self', w') \<and> proc self' = [] \<and>
      trace w' = [Poll 1 None, Poll 2 None, Poll 1 None, Poll 2 None, Poll 1 None, Poll 2 None,
                  Poll 1 None, Stdout (MsgKilledTimeout 1 6), Kill 1,
                  Poll 2 None, Stdout (MsgKilledTimeout 2 6), Kill 2] \<and>
      sweep_events 6 (trace w')"
    by auto
qed

subsection \<open>The per-process timeout\<close>

text \<open>
  C4. With \<^verbatim>\<open>process_timeout\<close> = T > 0, a sweep sends a kill signal to every tracked
  process that is alive and has run for more than T seconds, and drops it from the
  running set. What the sweep keeps has run for at most T seconds, so after the second of
  sleep that follows the sweep in the polling loop it has run for at most T + 1: the
  sweep that kills it comes at most one poll interval after the timeout.
\<close>

theorem clean_kills_overtime:
  assumes "process_timeout self > 0"
  shows "(\<forall>p \<in> set (proc self).
            alive w p \<and> get_runtime p w > process_timeout self \<longrightarrow>
              Kill (pid p) \<in> set (trace (snd (clean self w))) \<and>
              p \<notin> set (proc (fst (clean self w)))) \<and>
         (\<forall>p \<in> set (proc (fst (clean self w))).
            get_runtime p (snd (clean self w)) \<le> process_timeout self) \<and>
         (\<forall>p \<in> set (proc (fst (wait_step self w))).
            get_runtime p (snd (wait_step self w)) \<le> process_timeout self + 1)"
proof -
  let ?T = "process_timeout self"
  obtain newproc w' where cl: "clean_loop ?T (proc self) [] w = (newproc, w')"
    by (cases "clean_loop ?T (proc self) [] w")
  then have c: "clean self w = (self\<lparr>proc := newproc\<rparr>, w')"
    by (simp add: clean_def)
  from cl have w': "w' = snd (clean_loop ?T (proc self) [] w)"
    and np: "newproc = fst (clean_loop ?T (proc self) [] w)" by simp_all
  have kept: "alive w q \<and> \<not> get_runtime q w > ?T" if "q \<in> set newproc" for q
    using clean_loop_kept [of q ?T "proc self" "[]" w] that assms np by auto
  have clk: "clock w' = clock w" by (simp add: w')
  have 1: "Kill (pid p) \<in> set (trace w') \<and> p \<notin> set newproc"
    if "p \<in> set (proc self)" "alive w p" "get_runtime p w > ?T" for p
    using that assms kept [of p] clean_loop_kills [of p "proc self" w ?T "[]"] w' by auto
  have 2: "get_runtime p w' \<le> ?T" if "p \<in> set newproc" for p
    using kept [OF that] clk by (simp add: get_runtime_def)
  have 3: "get_runtime p (sleep 1 w') \<le> ?T + 1" if "p \<in> set newproc" for p
    using kept [OF that] clk by (simp add: get_runtime_def)
  from 1 2 3 show ?thesis
    by (simp add: c wait_step_def)
qed

theorem clean_kills_overtime_witness:
  "process_timeout (pool12 3 8) > 0 \<and> child1 \<in> set (proc (pool12 3 8)) \<and>
   alive world105 child1 \<and> get_runtime child1 world105 > process_timeout (pool12 3 8) \<and>
   Kill (pid child1) \<in> set (trace (snd (clean (pool12 3 8) world105))) \<and>
   child1 \<notin> set (proc (fst (clean (pool12 3 8) world105)))"
proof -
  have t: "process_timeout (pool12 3 8) > 0"
    by (simp add: pool12_def)
  have m: "child1 \<in> set (proc (pool12 3 8))"
    by (simp add: pool12_def)
  have a: "alive world105 child1"
    by (simp add: alive_def world105_def child1_def never_exits_def)
  have r: "get_runtime child1 world105 > process_timeout (pool12 3 8)"
    by (simp add: get_runtime_def world105_def child1_def pool12_def)
  from t m a r clean_kills_overtime [OF t, of world105] show ?thesis by blast
qed

subsection \<open>run\<close>

text \<open>
  C7. When the program of the command cannot be started, a call of \<^verbatim>\<open>run\<close> whose
  waiting loop ends raises \<^verbatim>\<open>OSError\<close>, and the pool and the world are then exactly
  what the waiting loop left: the running set has only lost processes, and the failed
  job is not in it.
\<close>

theorem run_spawn_failure:
  assumes "run_wait self w = Some (self1, w1)" and "\<not> can_spawn w cmd"
  shows "run self w cmd = Some (Raised OSError self1 w1) \<and> set (proc self1) \<subseteq> set (proc self)"
proof -
  from run_wait_Some [OF assms(1)] assms(2) have "\<not> can_spawn w1 cmd"
    and sub: "set (proc self1) \<subseteq> set (proc self)" by simp_all
  then have "spawn_append cmd self1 w1 = Raised OSError self1 w1"
    by (simp add: spawn_append_Raised)
  with assms(1) sub show ?thesis by (simp add: run_def)
qed

theorem run_spawn_failure_witness:
  "run_wait (ProcessPool_init 0 8) world_no_wget = Some (ProcessPool_init 0 8, world_no_wget) \<and>
   \<not> can_spawn world_no_wget [''wget''] \<and>
   run (ProcessPool_init 0 8) world_no_wget [''wget''] =
     Some (Raised OSError (ProcessPool_init 0 8) world_no_wget)"
proof -
  have w: "run_wait (ProcessPool_init 0 8) world_no_wget = Some (ProcessPool_init 0 8, world_no_wget)"
    by (simp add: run_wait.simps ProcessPool_init_def)
  have c: "\<not> can_spawn world_no_wget [''wget'']"
    by (simp add: world_no_wget_def no_command_def)
  from w c run_spawn_failure [OF w c] show ?thesis by simp
qed

text \<open>
  C8. With \<^verbatim>\<open>max_processes\<close> at most 0 a call of \<^verbatim>\<open>run\<close> never returns, whatever
  the running set and the world: also an empty list is at capacity.
\<close>

theorem run_never_returns:
  assumes "max_processes self \<le> 0"
  shows "run self w cmd = None"
proof (cases "run_wait self w")
  case None
  then show ?thesis by (simp add: run_def)
next
  case (Some y)
  from run_wait_Some [OF this] assms show ?thesis by simp
qed

theorem run_never_returns_witness:
  "max_processes (ProcessPool_init 0 0) \<le> 0 \<and> run (ProcessPool_init 0 0) world105 [''wget''] = None"
proof -
  have m: "max_processes (ProcessPool_init 0 0) \<le> 0"
    by (simp add: ProcessPool_init_def)
  from m run_never_returns [OF m] show ?thesis by simp
qed

subsection \<open>Kill signals follow a poll\<close>

text \<open>
  C9. In the events that a sweep appends, and in those that \<^verbatim>\<open>killall\<close> appends, every
  kill signal to a pid comes directly after a \<^verbatim>\<open>poll()\<close> of that pid that returned
  \<^verbatim>\<open>None\<close> and the line that announces the kill; so no signal goes to a process whose
  poll showed an exit status.
\<close>

theorem kill_only_after_poll_none:
  "(\<exists>es. trace (snd (clean self w)) = trace w @ es \<and>
         kills_announced (\<lambda>a. MsgKilledTimeout a (process_timeout self)) es) \<and>
   (\<exists>es. trace (snd (killall self w)) = trace w @ es \<and> kills_announced MsgKilledAll es)"
proof
  obtain es where "snd (clean_loop (process_timeout self) (proc self) [] w) = ext w es"
    and "kills_announced (\<lambda>a. MsgKilledTimeout a (process_timeout self)) es"
    using clean_loop_ext [of "process_timeout self" "proc self" "[]" w] by blast
  then show "\<exists>es. trace (snd (clean self w)) = trace w @ es \<and>
         kills_announced (\<lambda>a. MsgKilledTimeout a (process_timeout self)) es"
    by (auto simp: clean_def split: prod.splits)
next
  obtain es where "killall_loop (proc self) w = ext w es" and "kills_announced MsgKilledAll es"
    using killall_loop_ext [of "proc self" w] by blast
  then show "\<exists>es. trace (snd (killall self w)) = trace w @ es \<and> kills_announced MsgKilledAll es"
    by (auto simp: killall_def)
qed

theorem kill_only_after_poll_none_witness:
  "trace (snd (killall (pool12 0 8) world105)) =
     [Poll 1 None, Stdout (MsgKilledAll 1), Kill 1, Poll 2 None, Stdout (MsgKilledAll 2), Kill 2] \<and>
   (\<exists>pre'. [Poll 1 None, Stdout (MsgKilledAll 1), Kill 1, Poll 2 None, Stdout (MsgKilledAll 2)]
            = pre' @ [Poll 2 None, Stdout (MsgKilledAll 2)])"
proof -
  have t: "trace (snd (killall (pool12 0 8) world105)) =
     [Poll 1 None, Stdout (MsgKilledAll 1), Kill 1, Poll 2 None, Stdout (MsgKilledAll 2), Kill 2]"
    by (simp add: killall_def pool12_def killall_loop_Cons alive_def world105_def child1_def
          child2_def never_exits_def ext_def)
  have w: "trace world105 = []"
    by (simp add: world105_def)
  from kill_only_after_poll_none [of "pool12 0 8" world105] t w
  have "kills_announced MsgKilledAll
     [Poll 1 None, Stdout (MsgKilledAll 1), Kill 1, Poll 2 None, Stdout (MsgKilledAll 2), Kill 2]"
    by auto
  then have "\<exists>pre'. [Poll 1 None, Stdout (MsgKilledAll 1), Kill 1, Poll 2 None, Stdout (MsgKilledAll 2)]
            = pre' @ [Poll 2 None, Stdout (MsgKilledAll 2)]"
    unfolding kills_announced_def
    by (elim allE [of _ "[Poll 1 None, Stdout (MsgKilledAll 1), Kill 1, Poll 2 None, Stdout (MsgKilledAll 2)]"]
          allE [of _ 2] allE [of _ "[]"]) simp
  with t show ?thesis by blast
qed

subsection \<open>From URL to file name and back\<close>

text \<open>
  C10 (as amended). For a URL that is \<^verbatim>\<open>http://\<close> followed by a non-empty remainder
  without \<^verbatim>\<open>+\<close>, \<^verbatim>\<open>_\<close> and space, without two slashes in a row and without a slash
  at the end, and whose remainder moreover does not begin with a slash and does not end
  with a slash followed by a newline, guessing the URL from the file name of the URL
  gives the URL back.
\<close>

theorem filename_roundtrip:
  assumes "plain_remainder r" and "hd r \<noteq> CHR ''/''" and "\<not> suffix [CHR ''/'', newline] r"
  shows "guessUrlFromFilename (url2filename (''http://'' @ r)) = ''http://'' @ r"
proof -
  let ?f = "replace_char (CHR ''/'') (CHR ''+'') r"
  from assms(1) have plus: "CHR ''+'' \<notin> set r" and space: "CHR '' '' \<notin> set r"
    and lst: "last r \<noteq> CHR ''/''"
    by (simp_all add: plain_remainder_def)
  have 1: "sub_scheme (''http://'' @ r) = r"
    using assms(2) by (rule sub_scheme_http [OF disjI2])
  have 2: "sub_trailing_slashes r = r"
    using lst assms(3) by (intro sub_trailing_slashes_id) simp_all
  have "CHR '' '' \<notin> set ?f"
    using space by (intro replace_char_other) simp_all
  then have 3: "replace_char (CHR '' '') (CHR ''_'') ?f = ?f"
    by (rule replace_char_absent)
  have name: "url2filename (''http://'' @ r) = ?f"
    by (simp only: url2filename_def Let_def 1 2 3)
  have "CHR ''/'' \<notin> set ?f"
    by (intro replace_char_set) simp
  then have 4: "sub_path ?f = ?f" by (rule sub_path_id)
  have 5: "replace_char (CHR ''+'') (CHR ''/'') ?f = r"
    using plus by (rule replace_char_back)
  have 6: "replace_char (CHR ''+'') (CHR ''/'') ''http://'' = ''http://''"
    by (simp add: replace_char_def)
  show ?thesis
    by (simp only: name guessUrlFromFilename_def Let_def 4 replace_char_append 5 6)
qed

theorem filename_roundtrip_witness:
  "plain_remainder ''foo.bar/bla/baz.tar'' \<and> hd ''foo.bar/bla/baz.tar'' \<noteq> CHR ''/'' \<and>
   \<not> suffix [CHR ''/'', newline] ''foo.bar/bla/baz.tar'' \<and>
   url2filename ''http://foo.bar/bla/baz.tar'' = ''foo.bar+bla+baz.tar'' \<and>
   guessUrlFromFilename (url2filename ''http://foo.bar/bla/baz.tar'') = ''http://foo.bar/bla/baz.tar''"
proof -
  have p: "plain_remainder ''foo.bar/bla/baz.tar''"
    by (simp add: plain_remainder_def)
  have h: "hd ''foo.bar/bla/baz.tar'' \<noteq> CHR ''/''"
    by simp
  have s: "\<not> suffix [CHR ''/'', newline] ''foo.bar/bla/baz.tar''"
    by (simp add: suffix_def newline_def)
  have n: "url2filename ''http://foo.bar/bla/baz.tar'' = ''foo.bar+bla+baz.tar''"
    by code_simp
  from filename_roundtrip [OF p h s] p h s n show ?thesis by simp
qed

text \<open>The claim as written allows a remainder that begins with a slash; the scheme
  pattern takes every slash after the colon, and the slash is lost.\<close>

theorem filename_roundtrip_counterexample:
  "plain_remainder ''/a'' \<and>
   guessUrlFromFilename (url2filename (''http://'' @ ''/a'')) = ''http://a'' \<and>
   ''http://a'' \<noteq> ''http://'' @ ''/a''"
  by (simp add: plain_remainder_def) code_simp

end
